theory Spec2Isabelle
  imports Main "HOL-Library.Sublist"
begin

section \<open>The bulk deployment script\<close>

text \<open>
  The program is \<^verbatim>\<open>src/automated_deploy_v2.js\<close>, in its variant with a status file (lines
  257--517 of the file; line numbers below are the file's).

  The script publishes every project folder under the directory it was started in to
  GitHub, Vercel and Netlify, records per folder which of the three steps succeeded in
  a sidecar file \<^verbatim>\<open>.deploy_progress.json\<close>, and moves a folder whose three steps are done
  into the sibling directory \<^verbatim>\<open>upload done\<close>.

  Everything the script does goes through the Node runtime: \<^verbatim>\<open>execSync\<close>, \<^verbatim>\<open>fs\<close>,
  \<^verbatim>\<open>process.chdir\<close>, \<^verbatim>\<open>Math.random\<close>, \<^verbatim>\<open>Date.now\<close>.  The embedding keeps the
  script's control flow and makes the runtime an explicit \<open>world\<close>: the part of the file
  system the script reads back, the current directory, the trace of side effects
  performed so far, and, for each kind of call whose outcome the script cannot decide,
  the outcomes still to come (\<open>k\<close> calls ahead).  A call reads outcome \<open>0\<close> and shifts the
  rest down, so a theorem about all worlds is a theorem about every behaviour of the
  external tools, the disk and the clock.
\<close>

subsection \<open>Data\<close>

text \<open>A path is the list of its components; \<^verbatim>\<open>path.join(dir, name)\<close> is \<open>dir @ [name]\<close>
  for the single-component names the script joins.\<close>

type_synonym path = "string list"

text \<open>The object kept in \<^verbatim>\<open>.deploy_progress.json\<close>; \<^verbatim>\<open>repoName: null\<close> is \<open>None\<close>.\<close>

record status =
  github :: bool
  vercel :: bool
  netlify :: bool
  repoName :: "string option"

text \<open>
  The sidecar file as it lies on disk: it is not there (\<^verbatim>\<open>existsSync\<close> is false); its
  text is one \<^verbatim>\<open>JSON.parse\<close> throws on (an empty or cut-off file among them); its text is
  \<^verbatim>\<open>null\<close>, which parses to \<^verbatim>\<open>null\<close>; or it holds the text
  \<^verbatim>\<open>JSON.stringify(status, null, 2)\<close> of a status object, which \<^verbatim>\<open>JSON.parse\<close> reads back
  as that object.  Whether a particular \<^verbatim>\<open>readFileSync\<close> of the file throws is not a
  state of the file but an outcome of that call, see \<open>read_script\<close> below.  (Texts
  that parse to a number, a string, a boolean or an array are not modelled; on such
  a value the script reads every flag as undefined.)
\<close>

datatype sidecar = Absent | Malformed | HoldsNull | Stored status

text \<open>How a \<^verbatim>\<open>writeFileSync\<close> ends: the file holds the new text; the call threw before
  the file was opened and the file is as it was; or the call threw after the file was
  opened for writing (flag \<^verbatim>\<open>w\<close> truncates on open), leaving it empty or cut off.\<close>

datatype write_outcome = Written | ThrewUntouched | ThrewTruncated

text \<open>What the script looks at inside one project folder.\<close>

record folder_node =
  progress :: sidecar
  has_git :: bool
  has_gitignore :: bool
  has_netlify :: bool

text \<open>The commands handed to \<^verbatim>\<open>execSync\<close>, by the command line they stand for.\<close>

datatype cmd =
    GitInit                      \<comment> \<open>\<^verbatim>\<open>git init\<close>\<close>
  | GitAdd                       \<comment> \<open>\<^verbatim>\<open>git add .\<close>\<close>
  | GitCommit                    \<comment> \<open>\<^verbatim>\<open>git commit -m "Auto-deploy: Initial commit"\<close>\<close>
  | GhRepoCreate string          \<comment> \<open>\<^verbatim>\<open>gh repo create "name" --public --source=. --remote=origin --push\<close>\<close>
  | GitPushMaster                \<comment> \<open>\<^verbatim>\<open>git push -u origin master\<close>\<close>
  | GitPushMain                  \<comment> \<open>\<^verbatim>\<open>git push -u origin main\<close>\<close>
  | VercelProjectAdd string      \<comment> \<open>\<^verbatim>\<open>vercel project add "name"\<close>\<close>
  | VercelDeploy                 \<comment> \<open>\<^verbatim>\<open>vercel --prod --yes\<close>\<close>
  | NetlifySitesCreate string    \<comment> \<open>\<^verbatim>\<open>netlify sites:create --name "name" --json\<close>\<close>
  | NetlifyLink string           \<comment> \<open>\<^verbatim>\<open>netlify link --id id\<close>\<close>
  | NetlifyDeploy                \<comment> \<open>\<^verbatim>\<open>netlify deploy --prod --dir=.\<close>\<close>
  | Taskkill                     \<comment> \<open>\<^verbatim>\<open>taskkill /F /IM git.exe\<close>\<close>

text \<open>\<^verbatim>\<open>execSync\<close> returns the command's standard output or throws an error that carries
  its standard error (\<^verbatim>\<open>e.stderr ? e.stderr.toString() : ""\<close>).\<close>

datatype exec_result = Returned string | Threw string

text \<open>The side effects, in the order they happen.  A write or a rename is recorded when
  it is attempted, whether or not it succeeds.\<close>

datatype event =
    Exec cmd
  | Rename path path
  | Sleep nat
  | WriteStatus path status
  | WriteGitignore path

record world =
  cwd :: path
  tree :: "path \<rightharpoonup> folder_node"
  trace :: "event list"
  exec_script :: "nat \<Rightarrow> cmd \<Rightarrow> exec_result"
  rename_script :: "nat \<Rightarrow> string option"
  read_script :: "nat \<Rightarrow> bool"
  write_script :: "nat \<Rightarrow> write_outcome"
  random_script :: "nat \<Rightarrow> nat"
  clock_script :: "nat \<Rightarrow> nat"
  json_site_id :: "string \<Rightarrow> string option"

text \<open>
  \<^item> \<open>exec_script w k c\<close>: what the \<open>k\<close>-th \<^verbatim>\<open>execSync\<close> from now does when given \<open>c\<close>;
  \<^item> \<open>rename_script w k\<close>: the \<^verbatim>\<open>e.code\<close> the \<open>k\<close>-th \<^verbatim>\<open>renameSync\<close> from now throws,
    \<open>None\<close> when it succeeds;
  \<^item> \<open>read_script w k\<close>: whether the \<open>k\<close>-th \<^verbatim>\<open>readFileSync\<close> from now throws;
  \<^item> \<open>write_script w k\<close>: how the \<open>k\<close>-th \<^verbatim>\<open>writeFileSync\<close> from now ends;
  \<^item> \<open>random_script w k\<close>: the \<open>k\<close>-th \<^verbatim>\<open>Math.random()\<close> from now, scaled;
  \<^item> \<open>clock_script w k\<close>: the \<open>k\<close>-th \<^verbatim>\<open>Date.now()\<close> read for a file name;
  \<^item> \<open>json_site_id w out\<close>: \<^verbatim>\<open>JSON.parse(out).site_id\<close> as it is spliced into a command
    line, \<open>None\<close> when that expression throws.
\<close>

subsection \<open>Runtime calls\<close>

definition execSync :: "cmd \<Rightarrow> world \<Rightarrow> exec_result \<times> world" where
  "execSync c w =
     (exec_script w 0 c,
      w\<lparr>trace := trace w @ [Exec c], exec_script := (\<lambda>k. exec_script w (Suc k))\<rparr>)"

text \<open>\<^verbatim>\<open>fs.renameSync(src, dest)\<close>: \<open>None\<close> when the folder has moved, otherwise the
  \<^verbatim>\<open>e.code\<close> of the error it throws.  A failed rename changes nothing on disk.\<close>

definition renameSync :: "path \<Rightarrow> path \<Rightarrow> world \<Rightarrow> string option \<times> world" where
  "renameSync src dest w =
     (let w1 = w\<lparr>trace := trace w @ [Rename src dest],
                  rename_script := (\<lambda>k. rename_script w (Suc k))\<rparr>
      in case tree w src of
           None \<Rightarrow> (Some ''ENOENT'', w1)
         | Some node \<Rightarrow>
             (case rename_script w 0 of
                Some code \<Rightarrow> (Some code, w1)
              | None \<Rightarrow> (None, w1\<lparr>tree := (tree w)(src := None, dest \<mapsto> node)\<rparr>)))"

text \<open>\<^verbatim>\<open>sleepSync(ms)\<close> spins until \<^verbatim>\<open>Date.now()\<close> has advanced by \<open>ms\<close>; the embedding
  records the delay asked for.\<close>

definition sleepSync :: "nat \<Rightarrow> world \<Rightarrow> world" where
  "sleepSync ms w = w\<lparr>trace := trace w @ [Sleep ms]\<rparr>"

text \<open>\<^verbatim>\<open>process.chdir\<close> to the directory the script was started in, which exists.\<close>

definition chdir_root :: "path \<Rightarrow> world \<Rightarrow> world" where
  "chdir_root root w = w\<lparr>cwd := root\<rparr>"

subsection \<open>moveFolderWithRetry\<close>

definition maxMoveAttempts :: nat where
  "maxMoveAttempts = 10"

definition is_lock_code :: "string \<Rightarrow> bool" where
  "is_lock_code code = (code = ''EBUSY'' \<or> code = ''EPERM'' \<or> code = ''EACCES'')"

text \<open>The function returns nothing; what tells its two normal ends apart is the line it
  prints: \<^verbatim>\<open>Moved to "upload done".\<close> or \<^verbatim>\<open>FAILED TO MOVE ... after retries.\<close>\<close>

datatype move_outcome = Moved | GaveUp

text \<open>The \<^verbatim>\<open>while (attempts < maxAttempts)\<close> loop.  \<open>Inl code\<close> is the rethrown error.\<close>

function moveLoop :: "path \<Rightarrow> path \<Rightarrow> nat \<Rightarrow> world \<Rightarrow> (string + move_outcome) \<times> world" where
  "moveLoop src dest attempts w =
     (if attempts < maxMoveAttempts then
        (case renameSync src dest w of
           (None, w1) \<Rightarrow> (Inr Moved, w1)
         | (Some code, w1) \<Rightarrow>
             if is_lock_code code then
               moveLoop src dest (attempts + 1) (snd (execSync Taskkill (sleepSync 3000 w1)))
             else (Inl code, w1))
      else (Inr GaveUp, w))"
  by pat_completeness auto
termination
  by (relation "measure (\<lambda>(src, dest, attempts, w). maxMoveAttempts - attempts)") auto

declare moveLoop.simps [simp del]

definition moveFolderWithRetry ::
  "path \<Rightarrow> path \<Rightarrow> path \<Rightarrow> world \<Rightarrow> (string + move_outcome) \<times> world" where
  "moveFolderWithRetry root src dest w = moveLoop src dest 0 (chdir_root root w)"


subsection \<open>Strings\<close>

text \<open>\<^verbatim>\<open>s.includes(sub)\<close>: \<open>sub\<close> occurs in \<open>s\<close> as a contiguous piece.\<close>

definition str_includes :: "string \<Rightarrow> string \<Rightarrow> bool" where
  "str_includes s sub = sublist sub s"

text \<open>A natural number inside a template literal: its decimal digits.\<close>

definition digit :: "nat \<Rightarrow> char" where
  "digit d = ''0123456789'' ! d"

fun decimal :: "nat \<Rightarrow> string" where
  "decimal n = (if n < 10 then [digit n] else decimal (n div 10) @ [digit (n mod 10)])"

declare decimal.simps [simp del]

subsection \<open>The repository name derived from the folder name\<close>

text \<open>
  \<^verbatim>\<open>folder.toLowerCase().replace(/\s+/g, '-').replace(/[^a-z0-9-]/g, '')
        .replace(/-+/g, '-').replace(/^-|-$/g, '')\<close>
  on folder names written in ASCII.
\<close>

definition toLowerCase :: "string \<Rightarrow> string" where
  "toLowerCase s =
     map (\<lambda>c. case map_of (zip ''ABCDEFGHIJKLMNOPQRSTUVWXYZ'' ''abcdefghijklmnopqrstuvwxyz'') c of
                 None \<Rightarrow> c | Some l \<Rightarrow> l) s"

definition is_space :: "char \<Rightarrow> bool" where
  "is_space c = (c \<in> set [CHR '' '', CHR 0x09, CHR 0x0A, CHR 0x0B, CHR 0x0C, CHR 0x0D])"

text \<open>\<^verbatim>\<open>replace(/p+/g, '-')\<close> for a class \<open>p\<close> of characters: every maximal run becomes one
  dash.\<close>

function runs_to_dash :: "(char \<Rightarrow> bool) \<Rightarrow> string \<Rightarrow> string" where
  "runs_to_dash p [] = []"
| "runs_to_dash p (c # cs) =
     (if p c then CHR ''-'' # runs_to_dash p (dropWhile p cs) else c # runs_to_dash p cs)"
  by pat_completeness auto
termination
  by (relation "measure (\<lambda>(p, s). length s)")
     (auto simp: less_Suc_eq_le length_dropWhile_le)

definition is_name_char :: "char \<Rightarrow> bool" where
  "is_name_char c = (c \<in> set ''abcdefghijklmnopqrstuvwxyz0123456789-'')"

text \<open>\<^verbatim>\<open>replace(/^-|-$/g, '')\<close>: a dash at the very start goes, then a dash at the very end.\<close>

definition trim_dashes :: "string \<Rightarrow> string" where
  "trim_dashes s =
     (let t = (case s of [] \<Rightarrow> [] | c # cs \<Rightarrow> if c = CHR ''-'' then cs else s)
      in if t \<noteq> [] \<and> last t = CHR ''-'' then butlast t else t)"

definition cleanName :: "string \<Rightarrow> string" where
  "cleanName folder =
     trim_dashes (runs_to_dash (\<lambda>c. c = CHR ''-'')
       (filter is_name_char (runs_to_dash is_space (toLowerCase folder))))"

text \<open>\<^verbatim>\<open>if (!baseName) baseName = `project-${index}`\<close>\<close>

definition baseName :: "string \<Rightarrow> nat \<Rightarrow> string" where
  "baseName folder index =
     (if cleanName folder = [] then ''project-'' @ decimal index else cleanName folder)"

subsection \<open>The status file\<close>

definition defaultStatus :: status where
  "defaultStatus = \<lparr>github = False, vercel = False, netlify = False, repoName = None\<rparr>"

text \<open>\<^verbatim>\<open>JSON.parse(fs.readFileSync(statusFilePath, 'utf8'))\<close> inside \<^verbatim>\<open>try { } catch (e) { }\<close>,
  on a file that exists: \<open>None\<close> when either call throws and \<^verbatim>\<open>status\<close> keeps its
  value, otherwise the parsed value, which is \<^verbatim>\<open>null\<close> (\<open>Some None\<close>) or an object.\<close>

definition readAndParse :: "sidecar \<Rightarrow> world \<Rightarrow> status option option \<times> world" where
  "readAndParse content w =
     (let w1 = w\<lparr>read_script := (\<lambda>k. read_script w (Suc k))\<rparr>
      in if read_script w 0 then (None, w1)
         else (case content of
                 Absent \<Rightarrow> (None, w1)
               | Malformed \<Rightarrow> (None, w1)
               | HoldsNull \<Rightarrow> (Some None, w1)
               | Stored st \<Rightarrow> (Some (Some st), w1)))"

text \<open>Lines 409--414: \<^verbatim>\<open>status\<close> is the default object, replaced by the parsed file when
  the file exists and reading and parsing it do not throw.  The result \<open>None\<close> is
  \<^verbatim>\<open>status = null\<close>.\<close>

definition loadStatus :: "world \<Rightarrow> path \<Rightarrow> status option \<times> world" where
  "loadStatus w projectPath =
     (case tree w projectPath of
        None \<Rightarrow> (Some defaultStatus, w)
      | Some node \<Rightarrow>
          if progress node = Absent then (Some defaultStatus, w)
          else (case readAndParse (progress node) w of
                  (None, w1) \<Rightarrow> (Some defaultStatus, w1)
                | (Some parsed, w1) \<Rightarrow> (parsed, w1)))"

text \<open>\<^verbatim>\<open>status.repoName || baseName\<close>: \<^verbatim>\<open>null\<close> and the empty string are falsy.\<close>

definition nameOr :: "status \<Rightarrow> string \<Rightarrow> string" where
  "nameOr st base =
     (case repoName st of None \<Rightarrow> base | Some n \<Rightarrow> if n = [] then base else n)"

text \<open>\<^verbatim>\<open>fs.writeFileSync(statusFilePath, JSON.stringify(status, null, 2))\<close>; \<open>False\<close> when
  it throws.  It throws when the folder is gone.\<close>

definition writeStatus :: "path \<Rightarrow> status \<Rightarrow> world \<Rightarrow> bool \<times> world" where
  "writeStatus projectPath st w =
     (let w1 = w\<lparr>trace := trace w @ [WriteStatus projectPath st],
                  write_script := (\<lambda>k. write_script w (Suc k))\<rparr>
      in case tree w projectPath of
           None \<Rightarrow> (False, w1)
         | Some node \<Rightarrow>
             (case write_script w 0 of
                Written \<Rightarrow>
                  (True, w1\<lparr>tree := (tree w)(projectPath \<mapsto> node\<lparr>progress := Stored st\<rparr>)\<rparr>)
              | ThrewUntouched \<Rightarrow> (False, w1)
              | ThrewTruncated \<Rightarrow>
                  (False, w1\<lparr>tree := (tree w)(projectPath \<mapsto> node\<lparr>progress := Malformed\<rparr>)\<rparr>)))"

text \<open>\<^verbatim>\<open>fs.writeFileSync('.gitignore', ...)\<close>: the relative name is resolved against the
  current directory.\<close>

definition writeGitignore :: "world \<Rightarrow> bool \<times> world" where
  "writeGitignore w =
     (let w1 = w\<lparr>trace := trace w @ [WriteGitignore (cwd w)],
                  write_script := (\<lambda>k. write_script w (Suc k))\<rparr>
      in case tree w (cwd w) of
           None \<Rightarrow> (False, w1)
         | Some node \<Rightarrow>
             (case write_script w 0 of
                Written \<Rightarrow>
                  (True, w1\<lparr>tree := (tree w)(cwd w \<mapsto> node\<lparr>has_gitignore := True\<rparr>)\<rparr>)
              | ThrewUntouched \<Rightarrow> (False, w1)
              | ThrewTruncated \<Rightarrow>
                  (False, w1\<lparr>tree := (tree w)(cwd w \<mapsto> node\<lparr>has_gitignore := True\<rparr>)\<rparr>)))"

text \<open>\<^verbatim>\<open>Math.floor(Math.random() * 100000)\<close>: an integer from 0 to 99999.\<close>

definition randomSuffix :: "world \<Rightarrow> nat \<times> world" where
  "randomSuffix w =
     (random_script w 0 mod 100000, w\<lparr>random_script := (\<lambda>k. random_script w (Suc k))\<rparr>)"

text \<open>\<^verbatim>\<open>Date.now()\<close>\<close>

definition dateNow :: "world \<Rightarrow> nat \<times> world" where
  "dateNow w = (clock_script w 0, w\<lparr>clock_script := (\<lambda>k. clock_script w (Suc k))\<rparr>)"

subsection \<open>createGitHubRepo\<close>

definition maxCreateAttempts :: nat where
  "maxCreateAttempts = 5"

text \<open>
  The loop \<^verbatim>\<open>while (!created && attempts < maxAttempts)\<close>.  The variable \<^verbatim>\<open>created\<close> is
  only ever set immediately before a \<^verbatim>\<open>return\<close>, so it is false at every test of the
  loop condition and the embedding leaves it out.  The result is the returned name.
\<close>

function createLoop :: "string \<Rightarrow> string \<Rightarrow> nat \<Rightarrow> world \<Rightarrow> string \<times> world" where
  "createLoop projectName currentName attempts w =
     (if attempts < maxCreateAttempts then
        (case execSync (GhRepoCreate currentName) w of
           (Returned out, w1) \<Rightarrow> (currentName, w1)
         | (Threw errOutput, w1) \<Rightarrow>
             if str_includes errOutput ''already exists''
                \<or> str_includes errOutput ''name already exists'' then
               (case randomSuffix w1 of
                  (r, w2) \<Rightarrow>
                    createLoop projectName (projectName @ ''-'' @ decimal r) (attempts + 1) w2)
             else if str_includes errOutput ''remote origin already exists'' then
               (case execSync GitPushMaster w1 of
                  (Returned out, w2) \<Rightarrow> (currentName, w2)
                | (Threw pushErr, w2) \<Rightarrow> (currentName, snd (execSync GitPushMain w2)))
             else (currentName, w1))
      else (currentName, w))"
  by pat_completeness auto
termination
  by (relation "measure (\<lambda>(projectName, currentName, attempts, w). maxCreateAttempts - attempts)")
     auto

declare createLoop.simps [simp del]

definition createGitHubRepo :: "string \<Rightarrow> world \<Rightarrow> string \<times> world" where
  "createGitHubRepo projectName w = createLoop projectName projectName 0 w"

subsection \<open>One folder of the main loop\<close>

text \<open>What can reach the \<^verbatim>\<open>catch (fatalErr)\<close> of the loop body.\<close>

datatype fatal =
    ChdirFailed
  | ExecFailed cmd string
  | WriteFailed
  | RenameFailed string

text \<open>\<^verbatim>\<open>process.chdir(projectPath)\<close> throws when the folder is not there.\<close>

definition chdir :: "path \<Rightarrow> world \<Rightarrow> (fatal + unit) \<times> world" where
  "chdir p w = (case tree w p of None \<Rightarrow> (Inl ChdirFailed, w) | Some node \<Rightarrow> (Inr (), w\<lparr>cwd := p\<rparr>))"

definition existsGit :: "world \<Rightarrow> path \<Rightarrow> bool" where
  "existsGit w projectPath = (case tree w projectPath of None \<Rightarrow> False | Some node \<Rightarrow> has_git node)"

definition existsGitignore :: "world \<Rightarrow> path \<Rightarrow> bool" where
  "existsGitignore w projectPath =
     (case tree w projectPath of None \<Rightarrow> False | Some node \<Rightarrow> has_gitignore node)"

definition existsNetlify :: "world \<Rightarrow> path \<Rightarrow> bool" where
  "existsNetlify w projectPath =
     (case tree w projectPath of None \<Rightarrow> False | Some node \<Rightarrow> has_netlify node)"

text \<open>Lines 434--436, under the comment \<^verbatim>\<open>1. Git Init (Always ensure git is ready)\<close>.\<close>

definition gitInit :: "path \<Rightarrow> world \<Rightarrow> (fatal + unit) \<times> world" where
  "gitInit projectPath w =
     (if \<not> existsGit w projectPath then
        (case execSync GitInit w of
           (Returned out, w1) \<Rightarrow> (Inr (), w1)
         | (Threw err, w1) \<Rightarrow> (Inl (ExecFailed GitInit err), w1))
      else (Inr (), w))"

definition ensureGitignore :: "path \<Rightarrow> world \<Rightarrow> (fatal + unit) \<times> world" where
  "ensureGitignore projectPath w =
     (if \<not> existsGitignore w projectPath then
        (case writeGitignore w of
           (True, w1) \<Rightarrow> (Inr (), w1)
         | (False, w1) \<Rightarrow> (Inl WriteFailed, w1))
      else (Inr (), w))"

definition gitCommitAll :: "world \<Rightarrow> world" where
  "gitCommitAll w =
     (case execSync GitAdd w of
        (Returned out, w1) \<Rightarrow> snd (execSync GitCommit w1)
      | (Threw err, w1) \<Rightarrow> w1)"

definition gitPrepare :: "path \<Rightarrow> world \<Rightarrow> (fatal + unit) \<times> world" where
  "gitPrepare projectPath w =
     (case gitInit projectPath w of
        (Inl fatalErr, w1) \<Rightarrow> (Inl fatalErr, w1)
      | (Inr u, w1) \<Rightarrow>
          (case ensureGitignore projectPath w1 of
             (Inl fatalErr, w2) \<Rightarrow> (Inl fatalErr, w2)
           | (Inr u, w2) \<Rightarrow> (Inr (), gitCommitAll w2)))"

text \<open>Lines 439--448.\<close>

definition githubStage :: "string \<Rightarrow> path \<Rightarrow> status \<Rightarrow> world \<Rightarrow> (fatal + status) \<times> world" where
  "githubStage base projectPath st w =
     (if \<not> github st then
        (case createGitHubRepo (nameOr st base) w of
           (finalRepoName, w1) \<Rightarrow>
             if finalRepoName \<noteq> [] then
               (case writeStatus projectPath (st\<lparr>github := True, repoName := Some finalRepoName\<rparr>) w1 of
                  (True, w2) \<Rightarrow> (Inr (st\<lparr>github := True, repoName := Some finalRepoName\<rparr>), w2)
                | (False, w2) \<Rightarrow> (Inl WriteFailed, w2))
             else (Inr st, w1))
      else (Inr st, w))"

text \<open>Lines 451--464.  Everything sits inside the stage's own \<^verbatim>\<open>try\<close>, the write of the
  status file included: when that write throws, the flag has already been set in
  memory.\<close>

definition vercelStage :: "string \<Rightarrow> path \<Rightarrow> status \<Rightarrow> world \<Rightarrow> status \<times> world" where
  "vercelStage base projectPath st w =
     (if \<not> vercel st then
        (case execSync VercelDeploy (snd (execSync (VercelProjectAdd (nameOr st base)) w)) of
           (Returned out, w1) \<Rightarrow> (st\<lparr>vercel := True\<rparr>, snd (writeStatus projectPath (st\<lparr>vercel := True\<rparr>) w1))
         | (Threw err, w1) \<Rightarrow> (st, w1))
      else (st, w))"

text \<open>Lines 470--479: create and link a site when the folder has no \<^verbatim>\<open>.netlify\<close>; every
  failure in here is swallowed.\<close>

definition netlifyLinkSite :: "string \<Rightarrow> path \<Rightarrow> status \<Rightarrow> world \<Rightarrow> world" where
  "netlifyLinkSite base projectPath st w =
     (if \<not> existsNetlify w projectPath then
        (case randomSuffix w of
           (r, w1) \<Rightarrow>
             (case execSync (NetlifySitesCreate (nameOr st base @ ''-'' @ decimal r)) w1 of
                (Returned jsonOut, w2) \<Rightarrow>
                  (case json_site_id w2 jsonOut of
                     None \<Rightarrow> w2
                   | Some siteId \<Rightarrow> snd (execSync (NetlifyLink siteId) w2))
              | (Threw err, w2) \<Rightarrow> w2))
      else w)"

text \<open>Lines 467--489.\<close>

definition netlifyStage :: "string \<Rightarrow> path \<Rightarrow> status \<Rightarrow> world \<Rightarrow> status \<times> world" where
  "netlifyStage base projectPath st w =
     (if \<not> netlify st then
        (case execSync NetlifyDeploy (netlifyLinkSite base projectPath st w) of
           (Returned out, w1) \<Rightarrow> (st\<lparr>netlify := True\<rparr>, snd (writeStatus projectPath (st\<lparr>netlify := True\<rparr>) w1))
         | (Threw err, w1) \<Rightarrow> (st, w1))
      else (st, w))"

text \<open>Lines 431--489: the status object as it stands when the test of line 492 is
  reached.\<close>

definition runStages :: "string \<Rightarrow> path \<Rightarrow> status \<Rightarrow> world \<Rightarrow> (fatal + status) \<times> world" where
  "runStages base projectPath st w =
     (case chdir projectPath w of
        (Inl fatalErr, w1) \<Rightarrow> (Inl fatalErr, w1)
      | (Inr u, w1) \<Rightarrow>
          (case gitPrepare projectPath w1 of
             (Inl fatalErr, w2) \<Rightarrow> (Inl fatalErr, w2)
           | (Inr u, w2) \<Rightarrow>
               (case githubStage base projectPath st w2 of
                  (Inl fatalErr, w3) \<Rightarrow> (Inl fatalErr, w3)
                | (Inr st1, w3) \<Rightarrow>
                    (case vercelStage base projectPath st1 w3 of
                       (st2, w4) \<Rightarrow>
                         (case netlifyStage base projectPath st2 w4 of
                            (st3, w5) \<Rightarrow> (Inr st3, w5))))))"

definition UPLOAD_DONE_DIR :: "path \<Rightarrow> path" where
  "UPLOAD_DONE_DIR root = root @ [''upload done'']"

text \<open>How the processing of a folder ends: moved (to which path), not moved because the
  folder stayed locked, kept because a step is still open, the \<^verbatim>\<open>catch\<close> block, or an
  exception that leaves the loop body and with it \<^verbatim>\<open>forEach\<close>, so that the script ends
  without looking at the folders that remain.\<close>

datatype pass_outcome = Relocated path | MoveFailed | Kept | Errored fatal | Crashed

text \<open>Lines 499--503.\<close>

definition finalDest :: "path \<Rightarrow> string \<Rightarrow> world \<Rightarrow> path \<times> world" where
  "finalDest root folder w =
     (if tree w (UPLOAD_DONE_DIR root @ [folder]) \<noteq> None then
        (case dateNow w of (now, w1) \<Rightarrow> (UPLOAD_DONE_DIR root @ [folder @ ''_'' @ decimal now], w1))
      else (UPLOAD_DONE_DIR root @ [folder], w))"

text \<open>Lines 492--508.\<close>

definition moveToDone ::
  "path \<Rightarrow> string \<Rightarrow> path \<Rightarrow> status \<Rightarrow> world \<Rightarrow> (fatal + pass_outcome) \<times> world" where
  "moveToDone root folder projectPath st w =
     (if github st \<and> vercel st \<and> netlify st then
        (case finalDest root folder (sleepSync 1000 (chdir_root root w)) of
           (dest, w1) \<Rightarrow>
             (case moveFolderWithRetry root projectPath dest w1 of
                (Inr Moved, w2) \<Rightarrow> (Inr (Relocated dest), w2)
              | (Inr GaveUp, w2) \<Rightarrow> (Inr MoveFailed, w2)
              | (Inl code, w2) \<Rightarrow> (Inl (RenameFailed code), w2)))
      else (Inr Kept, w))"

text \<open>
  The body of \<^verbatim>\<open>folders.forEach((folder, index) => ...)\<close>, lines 405--514.  Line 428
  prints \<^verbatim>\<open>status.github\<close>, \<^verbatim>\<open>status.vercel\<close> and \<^verbatim>\<open>status.netlify\<close> before the \<^verbatim>\<open>try\<close> of
  line 430 is entered: when \<^verbatim>\<open>status\<close> is \<^verbatim>\<open>null\<close> that read throws a TypeError nothing
  catches.
\<close>

definition processFolder :: "path \<Rightarrow> string \<Rightarrow> nat \<Rightarrow> world \<Rightarrow> pass_outcome \<times> world" where
  "processFolder root folder index w =
     (case loadStatus w (root @ [folder]) of
        (None, w0) \<Rightarrow> (Crashed, w0)
      | (Some status, w0) \<Rightarrow>
          (case runStages (baseName folder index) (root @ [folder]) status w0 of
             (Inl fatalErr, w1) \<Rightarrow> (Errored fatalErr, chdir_root root w1)
           | (Inr st, w1) \<Rightarrow>
               (case moveToDone root folder (root @ [folder]) st w1 of
                  (Inl fatalErr, w2) \<Rightarrow> (Errored fatalErr, chdir_root root w2)
                | (Inr outcome, w2) \<Rightarrow> (outcome, w2))))"

section \<open>Vocabulary of the statements\<close>

subsection \<open>The move\<close>

text \<open>A rename outcome that the loop answers with another attempt.\<close>

definition lock_failure :: "string option \<Rightarrow> bool" where
  "lock_failure r = (case r of None \<Rightarrow> False | Some code \<Rightarrow> is_lock_code code)"

text \<open>What \<open>n\<close> failed attempts leave in the trace: the rename, the 3000\,ms sleep, the
  \<^verbatim>\<open>taskkill\<close>, \<open>n\<close> times over.\<close>

definition retry_events :: "path \<Rightarrow> path \<Rightarrow> nat \<Rightarrow> event list" where
  "retry_events src dest n = concat (replicate n [Rename src dest, Sleep 3000, Exec Taskkill])"

text \<open>The world after one attempt that found the folder locked.\<close>

definition after_locked :: "path \<Rightarrow> path \<Rightarrow> world \<Rightarrow> world" where
  "after_locked src dest w =
     snd (execSync Taskkill (sleepSync 3000
       (w\<lparr>trace := trace w @ [Rename src dest],
          rename_script := (\<lambda>k. rename_script w (Suc k))\<rparr>)))"

text \<open>How often \<^verbatim>\<open>renameSync\<close> was called in a trace.\<close>

fun is_rename :: "event \<Rightarrow> bool" where
  "is_rename (Rename src dest) = True"
| "is_rename e = False"

definition rename_attempts :: "event list \<Rightarrow> nat" where
  "rename_attempts es = length (filter is_rename es)"

text \<open>The destination used when \<^verbatim>\<open>upload done/folder\<close> is already there, for the clock
  value the next \<^verbatim>\<open>Date.now()\<close> returns.\<close>

definition stamped :: "path \<Rightarrow> string \<Rightarrow> world \<Rightarrow> path" where
  "stamped root folder w = UPLOAD_DONE_DIR root @ [folder @ ''_'' @ decimal (clock_script w 0)]"

text \<open>The destination line 505 hands to \<open>moveFolderWithRetry\<close>.\<close>

definition gateDest :: "path \<Rightarrow> string \<Rightarrow> world \<Rightarrow> path" where
  "gateDest root folder w =
     (if tree w (UPLOAD_DONE_DIR root @ [folder]) \<noteq> None then stamped root folder w
      else UPLOAD_DONE_DIR root @ [folder])"

subsection \<open>Repository names\<close>

text \<open>A name \<open>n\<close> that is \<open>p\<close>, or \<open>p\<close>, one dash and one to five decimal digits.\<close>

definition numeric :: "string \<Rightarrow> bool" where
  "numeric s = (s \<noteq> [] \<and> list_all (\<lambda>c. c \<in> set ''0123456789'') s)"

definition one_suffix :: "string \<Rightarrow> string \<Rightarrow> bool" where
  "one_suffix p n =
     (take (length p + 1) n = p @ ''-'' \<and> numeric (drop (length p + 1) n)
      \<and> length (drop (length p + 1) n) \<le> 5)"

definition candidate :: "string \<Rightarrow> string \<Rightarrow> bool" where
  "candidate p n = (n = p \<or> one_suffix p n)"

text \<open>The calls of \<^verbatim>\<open>gh repo create\<close> in a trace, and the name each was given.\<close>

fun is_create :: "event \<Rightarrow> bool" where
  "is_create (Exec (GhRepoCreate n)) = True"
| "is_create e = False"

fun created_name :: "event \<Rightarrow> string" where
  "created_name (Exec (GhRepoCreate n)) = n"
| "created_name e = []"

subsection \<open>Stages and flags\<close>

text \<open>The side effects that belong to the three stages: the commands sent to
  \<^verbatim>\<open>gh\<close>, \<^verbatim>\<open>vercel\<close> and \<^verbatim>\<open>netlify\<close>, the pushes, and the writes of the status file.\<close>

fun stage_event :: "event \<Rightarrow> bool" where
  "stage_event (Exec (GhRepoCreate n)) = True"
| "stage_event (Exec GitPushMaster) = True"
| "stage_event (Exec GitPushMain) = True"
| "stage_event (Exec (VercelProjectAdd n)) = True"
| "stage_event (Exec VercelDeploy) = True"
| "stage_event (Exec (NetlifySitesCreate n)) = True"
| "stage_event (Exec (NetlifyLink i)) = True"
| "stage_event (Exec NetlifyDeploy) = True"
| "stage_event (WriteStatus p st) = True"
| "stage_event e = False"

text \<open>Every flag that is true in \<open>a\<close> is true in \<open>b\<close>.\<close>

definition flags_le :: "status \<Rightarrow> status \<Rightarrow> bool" where
  "flags_le a b =
     ((github a \<longrightarrow> github b) \<and> (vercel a \<longrightarrow> vercel b) \<and> (netlify a \<longrightarrow> netlify b))"

text \<open>Every status object that the events \<open>es\<close> write to a status file has every flag
  true that is true in \<open>a\<close>.\<close>

definition saves_at_least :: "status \<Rightarrow> event list \<Rightarrow> bool" where
  "saves_at_least a es =
     list_all (\<lambda>e. case e of WriteStatus p st \<Rightarrow> flags_le a st | _ \<Rightarrow> True) es"

text \<open>
  The script run \<open>n\<close> times in a row, followed for one folder: a state is the path where
  the folder now lies and the world.  Each run processes the folder as long as it is
  still listed under the root; once moved it lies under \<^verbatim>\<open>upload done\<close>, which the scan
  of line 387 leaves out.
\<close>

fun rerun :: "path \<Rightarrow> string \<Rightarrow> nat \<Rightarrow> nat \<Rightarrow> path \<times> world \<Rightarrow> path \<times> world" where
  "rerun root folder index 0 (loc, w) = (loc, w)"
| "rerun root folder index (Suc n) (loc, w) =
     (if loc = root @ [folder] then
        (case processFolder root folder index w of
           (Relocated d, w1) \<Rightarrow> rerun root folder index n (d, w1)
         | (outcome, w1) \<Rightarrow> rerun root folder index n (loc, w1))
      else (loc, w))"

text \<open>The flags a loaded status shows; \<^verbatim>\<open>null\<close> shows none.\<close>

definition flags_of :: "status option \<Rightarrow> status" where
  "flags_of loaded = (case loaded of None \<Rightarrow> defaultStatus | Some st \<Rightarrow> st)"

text \<open>What a load of the folder's status file shows in such a state.\<close>

definition observe :: "path \<times> world \<Rightarrow> status" where
  "observe s = flags_of (fst (loadStatus (snd s) (fst s)))"

text \<open>The status object the file of a folder holds, the default one when it holds
  none.\<close>

definition stored :: "world \<Rightarrow> path \<Rightarrow> status" where
  "stored w p =
     (case tree w p of
        None \<Rightarrow> defaultStatus
      | Some node \<Rightarrow> (case progress node of Stored st \<Rightarrow> st | _ \<Rightarrow> defaultStatus))"

text \<open>From now on no read of a status file throws and no write is cut off.\<close>

definition reliable :: "world \<Rightarrow> bool" where
  "reliable w = ((\<forall>k. \<not> read_script w k) \<and> (\<forall>k. write_script w k \<noteq> ThrewTruncated))"

subsection \<open>Worlds that differ only in their status files\<close>

text \<open>A folder with its status file left out of account.\<close>

definition blank :: "folder_node \<Rightarrow> folder_node" where
  "blank node = node\<lparr>progress := Absent\<rparr>"

text \<open>Two worlds are alike when they agree in everything but the contents of status
  files and the outcomes of reads to come.\<close>

definition alike :: "world \<Rightarrow> world \<Rightarrow> bool" where
  "alike w w' =
     (cwd w = cwd w' \<and> trace w = trace w' \<and> exec_script w = exec_script w'
      \<and> rename_script w = rename_script w' \<and> write_script w = write_script w'
      \<and> random_script w = random_script w' \<and> clock_script w = clock_script w'
      \<and> json_site_id w = json_site_id w'
      \<and> (\<forall>q. map_option blank (tree w q) = map_option blank (tree w' q)))"

text \<open>The world with the status file of one folder taken away.\<close>

definition without_file :: "path \<Rightarrow> world \<Rightarrow> world" where
  "without_file p w =
     (case tree w p of
        None \<Rightarrow> w
      | Some node \<Rightarrow> w\<lparr>tree := (tree w)(p \<mapsto> node\<lparr>progress := Absent\<rparr>)\<rparr>)"

subsection \<open>Worlds to run the script in\<close>

text \<open>A world in which every command returns at once with no output, every rename,
  read and write succeeds, and nothing has happened yet.\<close>

definition quiet_world :: "path \<Rightarrow> (path \<rightharpoonup> folder_node) \<Rightarrow> world" where
  "quiet_world dir t =
     \<lparr>cwd = dir, tree = t, trace = [],
      exec_script = (\<lambda>k c. Returned []),
      rename_script = (\<lambda>k. None),
      read_script = (\<lambda>k. False),
      write_script = (\<lambda>k. Written),
      random_script = (\<lambda>k. 0),
      clock_script = (\<lambda>k. 0),
      json_site_id = (\<lambda>out. None)\<rparr>"

text \<open>A folder as it comes: no status file, no \<^verbatim>\<open>.git\<close>, no \<^verbatim>\<open>.gitignore\<close>, no
  \<^verbatim>\<open>.netlify\<close>.\<close>

definition fresh_node :: folder_node where
  "fresh_node = \<lparr>progress = Absent, has_git = False, has_gitignore = False, has_netlify = False\<rparr>"

text \<open>One folder \<open>app\<close> under the batch root \<open>batch\<close>; the first \<open>n\<close> renames find it locked,
  every later one ends as \<open>r\<close> says.\<close>

definition locked_world :: "nat \<Rightarrow> string option \<Rightarrow> world" where
  "locked_world n r =
     (quiet_world [''batch''] [[''batch'', ''app''] \<mapsto> fresh_node])
       \<lparr>rename_script := (\<lambda>k. if k < n then Some ''EBUSY'' else r)\<rparr>"

text \<open>The folder \<open>app\<close> with a given state of its status file, prepared for git and
  linked to Netlify.\<close>

definition app_world :: "sidecar \<Rightarrow> world" where
  "app_world file =
     quiet_world [''batch'']
       [[''batch'', ''app''] \<mapsto>
          \<lparr>progress = file, has_git = True, has_gitignore = True, has_netlify = True\<rparr>]"

definition allDone :: status where
  "allDone = \<lparr>github = True, vercel = True, netlify = True, repoName = Some ''app''\<rparr>"

text \<open>\<^verbatim>\<open>gh repo create\<close> fails for a reason that has nothing to do with the name.\<close>

definition gh_down_world :: world where
  "gh_down_world =
     (app_world Absent)
       \<lparr>exec_script := (\<lambda>k c. case c of GhRepoCreate n \<Rightarrow> Threw ''HTTP 401: Bad credentials''
                                    | _ \<Rightarrow> Returned [])\<rparr>"

text \<open>The first \<^verbatim>\<open>gh repo create\<close> fails because the remote \<open>origin\<close> is already set.\<close>

definition remote_exists_world :: world where
  "remote_exists_world =
     (app_world Absent)
       \<lparr>exec_script := (\<lambda>k c. if k = 0 then Threw ''X remote origin already exists''
                              else Returned []),
         random_script := (\<lambda>k. 4711)\<rparr>"


text \<open>The Vercel deployment fails.\<close>

definition vercel_down_world :: world where
  "vercel_down_world =
     (app_world Absent)
       \<lparr>exec_script := (\<lambda>k c. case c of VercelDeploy \<Rightarrow> Threw [] | _ \<Rightarrow> Returned [])\<rparr>"

text \<open>The same with the GitHub step already recorded in the status file.\<close>

definition half_done_world :: world where
  "half_done_world =
     (app_world (Stored \<lparr>github = True, vercel = False, netlify = False, repoName = Some ''app''\<rparr>))
       \<lparr>exec_script := (\<lambda>k c. case c of VercelDeploy \<Rightarrow> Threw [] | _ \<Rightarrow> Returned [])\<rparr>"

text \<open>\<open>app\<close> is complete and every read of a status file throws.\<close>

definition unreadable_done_world :: world where
  "unreadable_done_world = (app_world (Stored allDone))\<lparr>read_script := (\<lambda>k. True)\<rparr>"

text \<open>The status file of \<open>app\<close> records GitHub and Netlify as done.  Both deployments
  fail, and of the reads of status files the second one throws.\<close>

definition flaky_read_world :: world where
  "flaky_read_world =
     (app_world (Stored \<lparr>github = True, vercel = False, netlify = True, repoName = Some ''app''\<rparr>))
       \<lparr>exec_script := (\<lambda>k c. case c of VercelDeploy \<Rightarrow> Threw [] | NetlifyDeploy \<Rightarrow> Threw []
                                     | _ \<Rightarrow> Returned []),
        read_script := (\<lambda>k. k = 1)\<rparr>"

text \<open>The same status file; every command succeeds, and the first write of a status
  file throws after the file has been opened.\<close>

definition cut_write_world :: world where
  "cut_write_world =
     (app_world (Stored \<lparr>github = True, vercel = False, netlify = True, repoName = Some ''app''\<rparr>))
       \<lparr>write_script := (\<lambda>k. if k = 0 then ThrewTruncated else Written)\<rparr>"


text \<open>\<open>app\<close> is complete and \<^verbatim>\<open>upload done/app\<close> already exists.\<close>

definition collision_world :: world where
  "collision_world =
     (quiet_world [''batch'']
        [[''batch'', ''app''] \<mapsto>
           \<lparr>progress = Stored allDone, has_git = True, has_gitignore = True, has_netlify = True\<rparr>,
         [''batch'', ''upload done'', ''app''] \<mapsto> fresh_node])
       \<lparr>clock_script := (\<lambda>k. 1700000000000)\<rparr>"

section \<open>The retry loop of the move\<close>

text \<open>One attempt that finds the folder locked leads to the next attempt, in the world
  \<open>after_locked\<close>; the three ways the loop can end follow by induction on the number of
  such attempts.\<close>

lemma moveLoop_locked_step:
  assumes "attempts < maxMoveAttempts" "tree w src = Some node" "lock_failure (rename_script w 0)"
  shows "moveLoop src dest attempts w = moveLoop src dest (Suc attempts) (after_locked src dest w)"
  using assms
  by (subst moveLoop.simps)
     (auto simp: renameSync_def execSync_def sleepSync_def after_locked_def lock_failure_def
        Let_def split: option.splits)

lemma after_locked_simps [simp]:
  "tree (after_locked src dest w) = tree w"
  "cwd (after_locked src dest w) = cwd w"
  "rename_script (after_locked src dest w) k = rename_script w (Suc k)"
  "trace (after_locked src dest w) = trace w @ [Rename src dest, Sleep 3000, Exec Taskkill]"
  by (simp_all add: after_locked_def execSync_def sleepSync_def)

lemma retry_events_shift:
  "(t @ [Rename src dest, Sleep 3000, Exec Taskkill]) @ retry_events src dest n @ rest
     = t @ retry_events src dest (Suc n) @ rest"
  "(t @ [Rename src dest, Sleep 3000, Exec Taskkill]) @ retry_events src dest n
     = t @ retry_events src dest (Suc n)"
  by (simp_all add: retry_events_def)

lemma moveLoop_succeeds:
  assumes "attempts + n < maxMoveAttempts" "tree w src = Some node"
    "\<forall>k<n. lock_failure (rename_script w k)" "rename_script w n = None"
  shows "fst (moveLoop src dest attempts w) = Inr Moved
       \<and> tree (snd (moveLoop src dest attempts w)) = (tree w)(src := None, dest \<mapsto> node)
       \<and> trace (snd (moveLoop src dest attempts w)) = trace w @ retry_events src dest n @ [Rename src dest]
       \<and> cwd (snd (moveLoop src dest attempts w)) = cwd w"
  using assms
proof (induction n arbitrary: attempts w)
  case 0
  then show ?case
    by (subst (1 2 3 4) moveLoop.simps)
       (simp add: renameSync_def retry_events_def Let_def)
next
  case (Suc n)
  have step: "moveLoop src dest attempts w = moveLoop src dest (Suc attempts) (after_locked src dest w)"
    using Suc.prems by (intro moveLoop_locked_step) auto
  have ih: "fst (moveLoop src dest (Suc attempts) (after_locked src dest w)) = Inr Moved
       \<and> tree (snd (moveLoop src dest (Suc attempts) (after_locked src dest w))) = (tree (after_locked src dest w))(src := None, dest \<mapsto> node)
       \<and> trace (snd (moveLoop src dest (Suc attempts) (after_locked src dest w))) = trace (after_locked src dest w) @ retry_events src dest n @ [Rename src dest]
       \<and> cwd (snd (moveLoop src dest (Suc attempts) (after_locked src dest w))) = cwd (after_locked src dest w)"
    using Suc.prems by (intro Suc.IH) auto
  show ?case
    unfolding step using ih by (simp only: after_locked_simps retry_events_shift)
qed

lemma moveLoop_gives_up:
  assumes "attempts + n = maxMoveAttempts" "tree w src = Some node"
    "\<forall>k<n. lock_failure (rename_script w k)"
  shows "fst (moveLoop src dest attempts w) = Inr GaveUp
       \<and> tree (snd (moveLoop src dest attempts w)) = tree w
       \<and> trace (snd (moveLoop src dest attempts w)) = trace w @ retry_events src dest n
       \<and> cwd (snd (moveLoop src dest attempts w)) = cwd w"
  using assms
proof (induction n arbitrary: attempts w)
  case 0
  then show ?case
    by (subst (1 2 3 4) moveLoop.simps) (simp add: retry_events_def)
next
  case (Suc n)
  have step: "moveLoop src dest attempts w = moveLoop src dest (Suc attempts) (after_locked src dest w)"
    using Suc.prems by (intro moveLoop_locked_step) auto
  have ih: "fst (moveLoop src dest (Suc attempts) (after_locked src dest w)) = Inr GaveUp
       \<and> tree (snd (moveLoop src dest (Suc attempts) (after_locked src dest w))) = tree (after_locked src dest w)
       \<and> trace (snd (moveLoop src dest (Suc attempts) (after_locked src dest w))) = trace (after_locked src dest w) @ retry_events src dest n
       \<and> cwd (snd (moveLoop src dest (Suc attempts) (after_locked src dest w))) = cwd (after_locked src dest w)"
    using Suc.prems by (intro Suc.IH) auto
  show ?case
    unfolding step using ih by (simp only: after_locked_simps retry_events_shift)
qed

lemma moveLoop_rethrows:
  assumes "attempts + n < maxMoveAttempts" "tree w src = Some node"
    "\<forall>k<n. lock_failure (rename_script w k)" "rename_script w n = Some code" "\<not> is_lock_code code"
  shows "fst (moveLoop src dest attempts w) = Inl code
       \<and> tree (snd (moveLoop src dest attempts w)) = tree w
       \<and> trace (snd (moveLoop src dest attempts w)) = trace w @ retry_events src dest n @ [Rename src dest]
       \<and> cwd (snd (moveLoop src dest attempts w)) = cwd w"
  using assms
proof (induction n arbitrary: attempts w)
  case 0
  then show ?case
    by (subst (1 2 3 4) moveLoop.simps)
       (simp add: renameSync_def retry_events_def Let_def)
next
  case (Suc n)
  have step: "moveLoop src dest attempts w = moveLoop src dest (Suc attempts) (after_locked src dest w)"
    using Suc.prems by (intro moveLoop_locked_step) auto
  have ih: "fst (moveLoop src dest (Suc attempts) (after_locked src dest w)) = Inl code
       \<and> tree (snd (moveLoop src dest (Suc attempts) (after_locked src dest w))) = tree (after_locked src dest w)
       \<and> trace (snd (moveLoop src dest (Suc attempts) (after_locked src dest w))) = trace (after_locked src dest w) @ retry_events src dest n @ [Rename src dest]
       \<and> cwd (snd (moveLoop src dest (Suc attempts) (after_locked src dest w))) = cwd (after_locked src dest w)"
    using Suc.prems by (intro Suc.IH) auto
  show ?case
    unfolding step using ih by (simp only: after_locked_simps retry_events_shift)
qed


section \<open>Relocation\<close>

lemma rename_attempts_retry:
  "rename_attempts (t @ retry_events src dest n @ rest) = rename_attempts t + n + rename_attempts rest"
  by (induction n) (simp_all add: rename_attempts_def retry_events_def)

text \<open>
  Claim C7.  Let the folder \<open>src\<close> exist.  If \<^verbatim>\<open>renameSync\<close> fails \<open>n < 10\<close> times with
  \<^verbatim>\<open>EBUSY\<close>, \<^verbatim>\<open>EPERM\<close> or \<^verbatim>\<open>EACCES\<close> and then succeeds, \<open>moveFolderWithRetry\<close> ends with the
  folder moved after exactly \<open>n + 1\<close> rename attempts, each failed one followed by a
  3000\,ms sleep (and a \<^verbatim>\<open>taskkill\<close>).  If the first 10 renames all fail so, it gives up
  after 10 attempts and the directory tree is what it was: the folder is still at
  \<open>src\<close>.  If a rename fails with any other code, that error is rethrown at once, with
  no further attempt and the tree unchanged.
\<close>

theorem moveFolderWithRetry_retries_on_lock:
  assumes "tree w src = Some node"
  shows "(\<forall>n. n < maxMoveAttempts \<and> (\<forall>k<n. lock_failure (rename_script w k))
              \<and> rename_script w n = None \<longrightarrow>
            fst (moveFolderWithRetry root src dest w) = Inr Moved
          \<and> trace (snd (moveFolderWithRetry root src dest w))
              = trace w @ retry_events src dest n @ [Rename src dest]
          \<and> rename_attempts (trace (snd (moveFolderWithRetry root src dest w)))
              = rename_attempts (trace w) + n + 1
          \<and> tree (snd (moveFolderWithRetry root src dest w)) = (tree w)(src := None, dest \<mapsto> node))
       \<and> ((\<forall>k<maxMoveAttempts. lock_failure (rename_script w k)) \<longrightarrow>
            fst (moveFolderWithRetry root src dest w) = Inr GaveUp
          \<and> rename_attempts (trace (snd (moveFolderWithRetry root src dest w)))
              = rename_attempts (trace w) + maxMoveAttempts
          \<and> tree (snd (moveFolderWithRetry root src dest w)) = tree w)
       \<and> (\<forall>n code. n < maxMoveAttempts \<and> (\<forall>k<n. lock_failure (rename_script w k))
              \<and> rename_script w n = Some code \<and> \<not> is_lock_code code \<longrightarrow>
            fst (moveFolderWithRetry root src dest w) = Inl code
          \<and> trace (snd (moveFolderWithRetry root src dest w))
              = trace w @ retry_events src dest n @ [Rename src dest]
          \<and> tree (snd (moveFolderWithRetry root src dest w)) = tree w)"
proof -
  let ?w = "chdir_root root w"
  let ?M = "moveLoop src dest 0 ?w"
  have w: "tree ?w src = Some node" "rename_script ?w = rename_script w"
    "trace ?w = trace w" "tree ?w = tree w"
    using assms by (simp_all add: chdir_root_def)
  have count: "rename_attempts (t @ retry_events src dest n @ [Rename src dest])
      = rename_attempts t + n + 1" for t n
    by (simp add: rename_attempts_retry) (simp add: rename_attempts_def)
  have count': "rename_attempts (t @ retry_events src dest n) = rename_attempts t + n" for t n
    using rename_attempts_retry [of t src dest n "[]"] by (simp add: rename_attempts_def)
  have p1: "\<forall>n. n < maxMoveAttempts \<and> (\<forall>k<n. lock_failure (rename_script w k))
              \<and> rename_script w n = None \<longrightarrow>
            fst ?M = Inr Moved
          \<and> trace (snd ?M) = trace w @ retry_events src dest n @ [Rename src dest]
          \<and> rename_attempts (trace (snd ?M)) = rename_attempts (trace w) + n + 1
          \<and> tree (snd ?M) = (tree w)(src := None, dest \<mapsto> node)"
  proof (intro allI impI)
    fix n
    assume a: "n < maxMoveAttempts \<and> (\<forall>k<n. lock_failure (rename_script w k))
              \<and> rename_script w n = None"
    have "fst ?M = Inr Moved
      \<and> tree (snd ?M) = (tree ?w)(src := None, dest \<mapsto> node)
      \<and> trace (snd ?M) = trace ?w @ retry_events src dest n @ [Rename src dest]
      \<and> cwd (snd ?M) = cwd ?w"
      using a w by (intro moveLoop_succeeds) simp_all
    then show "fst ?M = Inr Moved
          \<and> trace (snd ?M) = trace w @ retry_events src dest n @ [Rename src dest]
          \<and> rename_attempts (trace (snd ?M)) = rename_attempts (trace w) + n + 1
          \<and> tree (snd ?M) = (tree w)(src := None, dest \<mapsto> node)"
      by (simp only: w count)
  qed
  have p2: "(\<forall>k<maxMoveAttempts. lock_failure (rename_script w k)) \<longrightarrow>
            fst ?M = Inr GaveUp
          \<and> rename_attempts (trace (snd ?M)) = rename_attempts (trace w) + maxMoveAttempts
          \<and> tree (snd ?M) = tree w"
  proof
    assume a: "\<forall>k<maxMoveAttempts. lock_failure (rename_script w k)"
    have "fst ?M = Inr GaveUp
      \<and> tree (snd ?M) = tree ?w
      \<and> trace (snd ?M) = trace ?w @ retry_events src dest maxMoveAttempts
      \<and> cwd (snd ?M) = cwd ?w"
      using a w by (intro moveLoop_gives_up) simp_all
    then show "fst ?M = Inr GaveUp
          \<and> rename_attempts (trace (snd ?M)) = rename_attempts (trace w) + maxMoveAttempts
          \<and> tree (snd ?M) = tree w"
      by (simp only: w count')
  qed
  have p3: "\<forall>n code. n < maxMoveAttempts \<and> (\<forall>k<n. lock_failure (rename_script w k))
              \<and> rename_script w n = Some code \<and> \<not> is_lock_code code \<longrightarrow>
            fst ?M = Inl code
          \<and> trace (snd ?M) = trace w @ retry_events src dest n @ [Rename src dest]
          \<and> tree (snd ?M) = tree w"
  proof (intro allI impI)
    fix n code
    assume a: "n < maxMoveAttempts \<and> (\<forall>k<n. lock_failure (rename_script w k))
              \<and> rename_script w n = Some code \<and> \<not> is_lock_code code"
    have "fst ?M = Inl code
      \<and> tree (snd ?M) = tree ?w
      \<and> trace (snd ?M) = trace ?w @ retry_events src dest n @ [Rename src dest]
      \<and> cwd (snd ?M) = cwd ?w"
      using a w by (intro moveLoop_rethrows) simp_all
    then show "fst ?M = Inl code
          \<and> trace (snd ?M) = trace w @ retry_events src dest n @ [Rename src dest]
          \<and> tree (snd ?M) = tree w"
      by (simp only: w)
  qed
  show ?thesis
    unfolding moveFolderWithRetry_def using p1 p2 p3 by blast
qed

theorem moveFolderWithRetry_retries_on_lock_witness:
  "fst (moveFolderWithRetry [''batch''] [''batch'', ''app''] [''batch'', ''upload done'', ''app'']
          (locked_world 2 None)) = Inr Moved
   \<and> rename_attempts (trace (snd (moveFolderWithRetry [''batch''] [''batch'', ''app'']
          [''batch'', ''upload done'', ''app''] (locked_world 2 None)))) = 3
   \<and> fst (moveFolderWithRetry [''batch''] [''batch'', ''app''] [''batch'', ''upload done'', ''app'']
          (locked_world 10 None)) = Inr GaveUp
   \<and> tree (snd (moveFolderWithRetry [''batch''] [''batch'', ''app'']
          [''batch'', ''upload done'', ''app''] (locked_world 10 None))) [''batch'', ''app'']
        = Some fresh_node
   \<and> fst (moveFolderWithRetry [''batch''] [''batch'', ''app''] [''batch'', ''upload done'', ''app'']
          (locked_world 1 (Some ''EXDEV''))) = Inl ''EXDEV''"
proof -
  have t: "tree (locked_world n r) [''batch'', ''app''] = Some fresh_node" for n r
    by (simp add: locked_world_def quiet_world_def)
  have s: "rename_script (locked_world n r) k = (if k < n then Some ''EBUSY'' else r)" for n r k
    by (simp add: locked_world_def quiet_world_def)
  have e: "trace (locked_world n r) = []" for n r
    by (simp add: locked_world_def quiet_world_def)
  have r: "rename_attempts [] = 0"
    by (simp add: rename_attempts_def)
  note simps = s e t r lock_failure_def is_lock_code_def maxMoveAttempts_def
  have c1: "fst (moveFolderWithRetry [''batch''] [''batch'', ''app'']
          [''batch'', ''upload done'', ''app''] (locked_world 2 None)) = Inr Moved
   \<and> rename_attempts (trace (snd (moveFolderWithRetry [''batch''] [''batch'', ''app'']
          [''batch'', ''upload done'', ''app''] (locked_world 2 None)))) = 3"
    using moveFolderWithRetry_retries_on_lock [OF t [of 2 None], of "[''batch'']"
        "[''batch'', ''upload done'', ''app'']", THEN conjunct1, rule_format, of 2]
    by (simp add: simps rename_attempts_def retry_events_def eval_nat_numeral)
  have c2: "fst (moveFolderWithRetry [''batch''] [''batch'', ''app'']
          [''batch'', ''upload done'', ''app''] (locked_world 10 None)) = Inr GaveUp
   \<and> tree (snd (moveFolderWithRetry [''batch''] [''batch'', ''app'']
          [''batch'', ''upload done'', ''app''] (locked_world 10 None))) [''batch'', ''app'']
        = Some fresh_node"
    using moveFolderWithRetry_retries_on_lock [OF t [of 10 None], of "[''batch'']"
        "[''batch'', ''upload done'', ''app'']", THEN conjunct2, THEN conjunct1, rule_format]
    by (simp add: simps)
  have c3: "fst (moveFolderWithRetry [''batch''] [''batch'', ''app'']
          [''batch'', ''upload done'', ''app''] (locked_world 1 (Some ''EXDEV''))) = Inl ''EXDEV''"
    using moveFolderWithRetry_retries_on_lock [OF t [of 1 "Some ''EXDEV''"], of "[''batch'']"
        "[''batch'', ''upload done'', ''app'']", THEN conjunct2, THEN conjunct2, rule_format,
        of 1 "''EXDEV''"]
    by (simp add: simps)
  show ?thesis
    using c1 c2 c3 by simp
qed

section \<open>The creation loop\<close>

text \<open>Decimal numerals are made of digits, and a number below \<open>10 ^ k\<close> has at most \<open>k\<close>
  of them.\<close>

lemma digit_numeric: "d < 10 \<Longrightarrow> digit d \<in> set ''0123456789''"
  unfolding digit_def by (rule nth_mem) simp

lemma decimal_numeric: "numeric (decimal n)"
proof (induction n rule: decimal.induct)
  case (1 n)
  show ?case
  proof (cases "n < 10")
    case True
    then show ?thesis
      using digit_numeric [of n] by (subst decimal.simps) (simp add: numeric_def)
  next
    case False
    then show ?thesis
      using "1" digit_numeric [of "n mod 10"]
      by (subst decimal.simps) (simp add: numeric_def)
  qed
qed

lemma length_decimal: "0 < k \<Longrightarrow> n < 10 ^ k \<Longrightarrow> length (decimal n) \<le> k"
proof (induction k arbitrary: n)
  case 0
  then show ?case by simp
next
  case (Suc k)
  show ?case
  proof (cases "n < 10")
    case True
    then show ?thesis by (subst decimal.simps) simp
  next
    case False
    with Suc.prems have k: "0 < k"
      by (cases k) auto
    from Suc.prems have "n div 10 < 10 ^ k"
      by (simp add: less_mult_imp_div_less mult.commute)
    with Suc.IH k have "length (decimal (n div 10)) \<le> k" by blast
    with False show ?thesis by (subst decimal.simps) simp
  qed
qed

lemma one_suffix_random: "r < 100000 \<Longrightarrow> one_suffix p (p @ ''-'' @ decimal r)"
  using length_decimal [of 5 r] decimal_numeric [of r]
  by (simp add: one_suffix_def)

text \<open>The test of line 365 can only succeed when the test of line 359 has.\<close>

lemma sublist_remote: "str_includes e ''remote origin already exists'' \<Longrightarrow> str_includes e ''already exists''"
proof -
  have "sublist ''already exists'' (''remote origin '' @ ''already exists'')"
    by (rule sublist_append_leftI)
  then have "sublist ''already exists'' ''remote origin already exists''" by simp
  then show "str_includes e ''remote origin already exists'' \<Longrightarrow> str_includes e ''already exists''"
    unfolding str_includes_def by (rule sublist_order.order.trans)
qed

text \<open>What the loop does in every world: it runs \<^verbatim>\<open>gh repo create\<close> at most five times
  in all, each time with a candidate name, returns a candidate name, and leaves the
  directory tree and the current directory alone.\<close>

lemma createLoop_events:
  "candidate p cur \<Longrightarrow>
   \<exists>es. trace (snd (createLoop p cur a w)) = trace w @ es
      \<and> list_all (\<lambda>e. is_create e \<and> candidate p (created_name e)) es
      \<and> length es \<le> maxCreateAttempts - a
      \<and> candidate p (fst (createLoop p cur a w))
      \<and> tree (snd (createLoop p cur a w)) = tree w
      \<and> cwd (snd (createLoop p cur a w)) = cwd w"
proof (induction p cur a w rule: createLoop.induct)
  case (1 projectName currentName attempts w)
  obtain x w1 where ex: "execSync (GhRepoCreate currentName) w = (x, w1)"
    by (cases "execSync (GhRepoCreate currentName) w")
  then have w1: "trace w1 = trace w @ [Exec (GhRepoCreate currentName)]" "tree w1 = tree w"
    "cwd w1 = cwd w"
    by (auto simp: execSync_def)
  show ?case
  proof (cases "attempts < maxCreateAttempts")
    case False
    then show ?thesis
      using "1.prems" by (subst (1 2 3 4) createLoop.simps) simp
  next
    case True
    show ?thesis
    proof (cases x)
      case (Returned out)
      then show ?thesis
        using True "1.prems" ex w1
        by (subst (1 2 3 4) createLoop.simps) simp
    next
      case (Threw errOutput)
      note ex = ex [unfolded Threw]
      show ?thesis
      proof (cases "str_includes errOutput ''already exists''
                    \<or> str_includes errOutput ''name already exists''")
        case taken: True
        obtain r w2 where rs: "randomSuffix w1 = (r, w2)"
          by (cases "randomSuffix w1")
        then have r: "r < 100000" and w2: "trace w2 = trace w1" "tree w2 = tree w1" "cwd w2 = cwd w1"
          by (auto simp: randomSuffix_def)
        have step: "createLoop projectName currentName attempts w
            = createLoop projectName (projectName @ ''-'' @ decimal r) (attempts + 1) w2"
          using True taken ex rs by (subst createLoop.simps) simp
        have cand: "candidate projectName (projectName @ ''-'' @ decimal r)"
          using one_suffix_random [OF r, of projectName] by (simp add: candidate_def)
        from "1.IH" [OF True ex [symmetric] refl taken rs [symmetric] cand]
        obtain es where es: "trace (snd (createLoop projectName (projectName @ ''-'' @ decimal r) (attempts + 1) w2)) = trace w2 @ es"
          "list_all (\<lambda>e. is_create e \<and> candidate projectName (created_name e)) es"
          "length es \<le> maxCreateAttempts - (attempts + 1)"
          "candidate projectName (fst (createLoop projectName (projectName @ ''-'' @ decimal r) (attempts + 1) w2))"
          "tree (snd (createLoop projectName (projectName @ ''-'' @ decimal r) (attempts + 1) w2)) = tree w2"
          "cwd (snd (createLoop projectName (projectName @ ''-'' @ decimal r) (attempts + 1) w2)) = cwd w2"
          by blast
        show ?thesis
          unfolding step
          using es w1 w2 True "1.prems"
          by (intro exI [of _ "Exec (GhRepoCreate currentName) # es"]) simp
      next
        case other: False
        then have "\<not> str_includes errOutput ''remote origin already exists''"
          using sublist_remote by blast
        then show ?thesis
          using True other ex w1 "1.prems"
          by (subst (1 2 3 4) createLoop.simps)
             (auto intro!: exI [of _ "[Exec (GhRepoCreate currentName)]"])
      qed
    qed
  qed
qed

text \<open>The equations that run the script on a concrete world.\<close>

lemmas run_simps = runStages_def processFolder_def chdir_def gitPrepare_def gitInit_def
  ensureGitignore_def gitCommitAll_def githubStage_def vercelStage_def netlifyStage_def
  netlifyLinkSite_def moveToDone_def finalDest_def moveFolderWithRetry_def createGitHubRepo_def
  createLoop.simps moveLoop.simps execSync_def renameSync_def writeStatus_def writeGitignore_def
  randomSuffix_def dateNow_def sleepSync_def chdir_root_def existsGit_def existsGitignore_def
  existsNetlify_def nameOr_def loadStatus_def readAndParse_def defaultStatus_def quiet_world_def fresh_node_def
  UPLOAD_DONE_DIR_def maxCreateAttempts_def maxMoveAttempts_def is_lock_code_def
  decimal.simps digit_def app_world_def allDone_def str_includes_def sublist_code

section \<open>Names tried by createGitHubRepo\<close>



section \<open>Passes that differ only in the status files they find\<close>

text \<open>Nothing but the load looks at the contents of a status file: every other step
  gives the same result and the same effects in worlds that are alike.\<close>

lemma blank_eq:
  "blank n = blank n' \<longleftrightarrow>
     has_git n = has_git n' \<and> has_gitignore n = has_gitignore n' \<and> has_netlify n = has_netlify n'"
  by (cases n; cases n') (simp add: blank_def)

lemma blank_update [simp]:
  "blank (n\<lparr>progress := x\<rparr>) = blank n"
  "blank (n\<lparr>has_gitignore := True\<rparr>) = (blank n)\<lparr>has_gitignore := True\<rparr>"
  by (simp_all add: blank_def)

lemma alike_refl [simp]: "alike w w"
  by (simp add: alike_def)

lemma alike_tree:
  assumes "alike w w'"
  shows "tree w q = None \<longleftrightarrow> tree w' q = None"
    and "tree w q = Some n \<Longrightarrow> \<exists>n'. tree w' q = Some n' \<and> blank n = blank n'"
proof -
  from assms have e: "map_option blank (tree w q) = map_option blank (tree w' q)"
    by (simp add: alike_def)
  show "tree w q = None \<longleftrightarrow> tree w' q = None"
    using e by (cases "tree w q"; cases "tree w' q") simp_all
  show "\<exists>n'. tree w' q = Some n' \<and> blank n = blank n'" if "tree w q = Some n"
    using e that by (cases "tree w' q") simp_all
qed

lemma alike_exists:
  assumes "alike w w'"
  shows "existsGit w p = existsGit w' p" "existsGitignore w p = existsGitignore w' p"
    "existsNetlify w p = existsNetlify w' p"
proof -
  show "existsGit w p = existsGit w' p"
    using alike_tree [OF assms, of p]
    by (cases "tree w p"; cases "tree w' p") (auto simp: existsGit_def blank_eq)
  show "existsGitignore w p = existsGitignore w' p"
    using alike_tree [OF assms, of p]
    by (cases "tree w p"; cases "tree w' p") (auto simp: existsGitignore_def blank_eq)
  show "existsNetlify w p = existsNetlify w' p"
    using alike_tree [OF assms, of p]
    by (cases "tree w p"; cases "tree w' p") (auto simp: existsNetlify_def blank_eq)
qed

lemma alike_simple:
  assumes "alike w w'"
  shows "fst (execSync c w) = fst (execSync c w') \<and> alike (snd (execSync c w)) (snd (execSync c w'))"
    and "alike (sleepSync ms w) (sleepSync ms w')"
    and "alike (chdir_root root w) (chdir_root root w')"
    and "fst (randomSuffix w) = fst (randomSuffix w') \<and> alike (snd (randomSuffix w)) (snd (randomSuffix w'))"
    and "fst (dateNow w) = fst (dateNow w') \<and> alike (snd (dateNow w)) (snd (dateNow w'))"
    and "alike (w\<lparr>cwd := p\<rparr>) (w'\<lparr>cwd := p\<rparr>)"
  using assms
  by (simp_all add: alike_def execSync_def sleepSync_def chdir_root_def randomSuffix_def dateNow_def)

lemma alike_renameSync:
  assumes "alike w w'"
  shows "fst (renameSync src dest w) = fst (renameSync src dest w')
       \<and> alike (snd (renameSync src dest w)) (snd (renameSync src dest w'))"
proof (cases "tree w src")
  case None
  then have "tree w' src = None"
    using alike_tree(1) [OF assms, of src] by simp
  with None show ?thesis
    using assms by (simp add: renameSync_def alike_def)
next
  case (Some n)
  then obtain n' where n': "tree w' src = Some n'" "blank n = blank n'"
    using alike_tree(2) [OF assms] by blast
  have r: "rename_script w = rename_script w'"
    using assms by (simp add: alike_def)
  show ?thesis
  proof (cases "rename_script w' 0")
    case None
    then show ?thesis
      using Some n' r assms by (simp add: renameSync_def alike_def)
  next
    case (Some code)
    then show ?thesis
      using \<open>tree w src = Some n\<close> n' r assms by (simp add: renameSync_def alike_def)
  qed
qed

lemma alike_writeStatus:
  assumes "alike w w'"
  shows "fst (writeStatus p st w) = fst (writeStatus p st w')
       \<and> alike (snd (writeStatus p st w)) (snd (writeStatus p st w'))"
proof (cases "tree w p")
  case None
  then have "tree w' p = None"
    using alike_tree(1) [OF assms, of p] by simp
  with None show ?thesis
    using assms by (simp add: writeStatus_def alike_def)
next
  case (Some n)
  then obtain n' where n': "tree w' p = Some n'" "blank n = blank n'"
    using alike_tree(2) [OF assms] by blast
  have r: "write_script w = write_script w'"
    using assms by (simp add: alike_def)
  show ?thesis
    using Some n' r assms
    by (cases "write_script w' 0") (simp_all add: writeStatus_def alike_def)
qed

lemma alike_writeGitignore:
  assumes "alike w w'"
  shows "fst (writeGitignore w) = fst (writeGitignore w')
       \<and> alike (snd (writeGitignore w)) (snd (writeGitignore w'))"
proof -
  have c: "cwd w = cwd w'"
    using assms by (simp add: alike_def)
  show ?thesis
  proof (cases "tree w (cwd w)")
    case None
    then have "tree w' (cwd w') = None"
      using alike_tree(1) [OF assms, of "cwd w"] c by simp
    with None show ?thesis
      using assms by (simp add: writeGitignore_def alike_def)
  next
    case (Some n)
    then obtain n' where n': "tree w' (cwd w') = Some n'" "blank n = blank n'"
      using alike_tree(2) [OF assms, of "cwd w"] c by auto
    have r: "write_script w = write_script w'"
      using assms by (simp add: alike_def)
    show ?thesis
      using Some n' r c assms
      by (cases "write_script w' 0") (simp_all add: writeGitignore_def alike_def)
  qed
qed


lemma alike_createLoop:
  "alike w w' \<Longrightarrow>
   fst (createLoop p cur a w) = fst (createLoop p cur a w')
   \<and> alike (snd (createLoop p cur a w)) (snd (createLoop p cur a w'))"
proof (induction p cur a w arbitrary: w' rule: createLoop.induct)
  case (1 projectName currentName attempts w)
  obtain x w1 where ex: "execSync (GhRepoCreate currentName) w = (x, w1)"
    by (cases "execSync (GhRepoCreate currentName) w")
  obtain x' w1' where ex': "execSync (GhRepoCreate currentName) w' = (x', w1')"
    by (cases "execSync (GhRepoCreate currentName) w'")
  from alike_simple(1) [OF "1.prems", of "GhRepoCreate currentName"]
  have xx: "x' = x" and a1: "alike w1 w1'"
    unfolding ex ex' by simp_all
  note L = createLoop.simps [of projectName currentName attempts w]
  note R = createLoop.simps [of projectName currentName attempts w']
  show ?case
  proof (cases "attempts < maxCreateAttempts")
    case False
    then show ?thesis
      using "1.prems" by (simp add: L R)
  next
    case True
    show ?thesis
    proof (cases x)
      case (Returned out)
      then show ?thesis
        using True ex ex' xx a1 by (simp add: L R)
    next
      case (Threw errOutput)
      note ex = ex [unfolded Threw]
      note ex' = ex' [unfolded xx Threw]
      show ?thesis
      proof (cases "str_includes errOutput ''already exists''
                    \<or> str_includes errOutput ''name already exists''")
        case taken: True
        obtain r w2 where rs: "randomSuffix w1 = (r, w2)"
          by (cases "randomSuffix w1")
        obtain r' w2' where rs': "randomSuffix w1' = (r', w2')"
          by (cases "randomSuffix w1'")
        from alike_simple(4) [OF a1]
        have rr: "r' = r" and a2: "alike w2 w2'"
          unfolding rs rs' by simp_all
        have l: "createLoop projectName currentName attempts w
            = createLoop projectName (projectName @ ''-'' @ decimal r) (attempts + 1) w2"
          using True taken ex rs by (simp add: L)
        have r: "createLoop projectName currentName attempts w'
            = createLoop projectName (projectName @ ''-'' @ decimal r) (attempts + 1) w2'"
          using True taken ex' rs' rr by (simp add: R)
        show ?thesis
          unfolding l r
          by (rule "1.IH" [OF True ex [symmetric] refl taken rs [symmetric] a2])
      next
        case other: False
        then have "\<not> str_includes errOutput ''remote origin already exists''"
          using sublist_remote by blast
        then show ?thesis
          using True other ex ex' a1 by (simp add: L R)
      qed
    qed
  qed
qed

lemma alike_moveLoop:
  "alike w w' \<Longrightarrow>
   fst (moveLoop src dest a w) = fst (moveLoop src dest a w')
   \<and> alike (snd (moveLoop src dest a w)) (snd (moveLoop src dest a w'))"
proof (induction src dest a w arbitrary: w' rule: moveLoop.induct)
  case (1 src dest attempts w)
  obtain res w1 where rn: "renameSync src dest w = (res, w1)"
    by (cases "renameSync src dest w")
  obtain res' w1' where rn': "renameSync src dest w' = (res', w1')"
    by (cases "renameSync src dest w'")
  from alike_renameSync [OF "1.prems", of src dest]
  have rr: "res' = res" and a1: "alike w1 w1'"
    unfolding rn rn' by simp_all
  note L = moveLoop.simps [of src dest attempts w]
  note R = moveLoop.simps [of src dest attempts w']
  show ?case
  proof (cases "attempts < maxMoveAttempts")
    case False
    then show ?thesis
      using "1.prems" by (simp add: L R)
  next
    case True
    show ?thesis
    proof (cases res)
      case None
      then show ?thesis
        using True rn rn' rr a1 by (simp add: L R)
    next
      case (Some code)
      note rn = rn [unfolded Some]
      note rn' = rn' [unfolded rr Some]
      show ?thesis
      proof (cases "is_lock_code code")
        case False
        then show ?thesis
          using True rn rn' a1 by (simp add: L R)
      next
        case lock: True
        let ?v = "snd (execSync Taskkill (sleepSync 3000 w1))"
        let ?v' = "snd (execSync Taskkill (sleepSync 3000 w1'))"
        have a2: "alike ?v ?v'"
          using alike_simple(1) [OF alike_simple(2) [OF a1, of 3000], of Taskkill] by simp
        have l: "moveLoop src dest attempts w = moveLoop src dest (attempts + 1) ?v"
          using True lock rn by (simp add: L)
        have r: "moveLoop src dest attempts w' = moveLoop src dest (attempts + 1) ?v'"
          using True lock rn' by (simp add: R)
        show ?thesis
          unfolding l r
          by (rule "1.IH" [OF True rn [symmetric] refl lock a2])
      qed
    qed
  qed
qed


lemma alike_gitInit:
  assumes "alike w w'"
  shows "fst (gitInit p w) = fst (gitInit p w') \<and> alike (snd (gitInit p w)) (snd (gitInit p w'))"
proof -
  obtain x w1 where ex: "execSync GitInit w = (x, w1)"
    by (cases "execSync GitInit w")
  obtain x' w1' where ex': "execSync GitInit w' = (x', w1')"
    by (cases "execSync GitInit w'")
  from alike_simple(1) [OF assms, of GitInit]
  have "x' = x" "alike w1 w1'"
    unfolding ex ex' by simp_all
  then show ?thesis
    using assms alike_exists(1) [OF assms, of p] ex ex'
    by (cases x) (simp_all add: gitInit_def)
qed

lemma alike_ensureGitignore:
  assumes "alike w w'"
  shows "fst (ensureGitignore p w) = fst (ensureGitignore p w')
       \<and> alike (snd (ensureGitignore p w)) (snd (ensureGitignore p w'))"
proof -
  obtain ok w1 where wr: "writeGitignore w = (ok, w1)"
    by (cases "writeGitignore w")
  obtain ok' w1' where wr': "writeGitignore w' = (ok', w1')"
    by (cases "writeGitignore w'")
  from alike_writeGitignore [OF assms]
  have "ok' = ok" "alike w1 w1'"
    unfolding wr wr' by simp_all
  then show ?thesis
    using assms alike_exists(2) [OF assms, of p] wr wr'
    by (cases ok) (simp_all add: ensureGitignore_def)
qed

lemma alike_gitCommitAll:
  assumes "alike w w'"
  shows "alike (gitCommitAll w) (gitCommitAll w')"
proof -
  obtain x w1 where ex: "execSync GitAdd w = (x, w1)"
    by (cases "execSync GitAdd w")
  obtain x' w1' where ex': "execSync GitAdd w' = (x', w1')"
    by (cases "execSync GitAdd w'")
  from alike_simple(1) [OF assms, of GitAdd]
  have xx: "x' = x" and a1: "alike w1 w1'"
    unfolding ex ex' by simp_all
  show ?thesis
    using xx a1 ex ex' alike_simple(1) [OF a1, of GitCommit]
    by (cases x) (simp_all add: gitCommitAll_def)
qed

lemma alike_gitPrepare:
  assumes "alike w w'"
  shows "fst (gitPrepare p w) = fst (gitPrepare p w')
       \<and> alike (snd (gitPrepare p w)) (snd (gitPrepare p w'))"
proof -
  obtain a w1 where gi: "gitInit p w = (a, w1)"
    by (cases "gitInit p w")
  obtain a' w1' where gi': "gitInit p w' = (a', w1')"
    by (cases "gitInit p w'")
  from alike_gitInit [OF assms, of p]
  have aa: "a' = a" and a1: "alike w1 w1'"
    unfolding gi gi' by simp_all
  obtain b w2 where eg: "ensureGitignore p w1 = (b, w2)"
    by (cases "ensureGitignore p w1")
  obtain b' w2' where eg': "ensureGitignore p w1' = (b', w2')"
    by (cases "ensureGitignore p w1'")
  from alike_ensureGitignore [OF a1, of p]
  have bb: "b' = b" and a2: "alike w2 w2'"
    unfolding eg eg' by simp_all
  show ?thesis
  proof (cases a)
    case (Inl e)
    then show ?thesis
      using gi gi' aa a1 by (simp add: gitPrepare_def)
  next
    case (Inr u)
    then show ?thesis
      using gi gi' aa eg eg' bb a2 alike_gitCommitAll [OF a2]
      by (cases b) (simp_all add: gitPrepare_def)
  qed
qed

lemma alike_githubStage:
  assumes "alike w w'"
  shows "fst (githubStage base p st w) = fst (githubStage base p st w')
       \<and> alike (snd (githubStage base p st w)) (snd (githubStage base p st w'))"
proof (cases "github st")
  case True
  then show ?thesis
    using assms by (simp add: githubStage_def)
next
  case False
  obtain name w1 where cr: "createGitHubRepo (nameOr st base) w = (name, w1)"
    by (cases "createGitHubRepo (nameOr st base) w")
  obtain name' w1' where cr': "createGitHubRepo (nameOr st base) w' = (name', w1')"
    by (cases "createGitHubRepo (nameOr st base) w'")
  from alike_createLoop [OF assms, of "nameOr st base" "nameOr st base" 0]
  have nn: "name' = name" and a1: "alike w1 w1'"
    using cr cr' by (simp_all add: createGitHubRepo_def)
  let ?st = "st\<lparr>github := True, repoName := Some name\<rparr>"
  obtain ok w2 where wr: "writeStatus p ?st w1 = (ok, w2)"
    by (cases "writeStatus p ?st w1")
  obtain ok' w2' where wr': "writeStatus p ?st w1' = (ok', w2')"
    by (cases "writeStatus p ?st w1'")
  from alike_writeStatus [OF a1, of p ?st]
  have oo: "ok' = ok" and a2: "alike w2 w2'"
    unfolding wr wr' by simp_all
  show ?thesis
    using False cr cr' nn a1 wr wr' oo a2
    by (cases ok) (simp_all add: githubStage_def)
qed

lemma alike_vercelStage:
  assumes "alike w w'"
  shows "fst (vercelStage base p st w) = fst (vercelStage base p st w')
       \<and> alike (snd (vercelStage base p st w)) (snd (vercelStage base p st w'))"
proof (cases "vercel st")
  case True
  then show ?thesis
    using assms by (simp add: vercelStage_def)
next
  case False
  let ?c = "VercelProjectAdd (nameOr st base)"
  have a0: "alike (snd (execSync ?c w)) (snd (execSync ?c w'))"
    using alike_simple(1) [OF assms, of ?c] by simp
  obtain x w1 where ex: "execSync VercelDeploy (snd (execSync ?c w)) = (x, w1)"
    by (cases "execSync VercelDeploy (snd (execSync ?c w))")
  obtain x' w1' where ex': "execSync VercelDeploy (snd (execSync ?c w')) = (x', w1')"
    by (cases "execSync VercelDeploy (snd (execSync ?c w'))")
  from alike_simple(1) [OF a0, of VercelDeploy]
  have xx: "x' = x" and a1: "alike w1 w1'"
    unfolding ex ex' by simp_all
  show ?thesis
    using False ex ex' xx a1 alike_writeStatus [OF a1, of p "st\<lparr>vercel := True\<rparr>"]
    by (cases x) (simp_all add: vercelStage_def)
qed

lemma alike_netlifyLinkSite:
  assumes "alike w w'"
  shows "alike (netlifyLinkSite base p st w) (netlifyLinkSite base p st w')"
proof (cases "existsNetlify w p")
  case True
  then show ?thesis
    using assms alike_exists(3) [OF assms, of p] by (simp add: netlifyLinkSite_def)
next
  case False
  then have f': "\<not> existsNetlify w' p"
    using alike_exists(3) [OF assms, of p] by simp
  obtain r w1 where rs: "randomSuffix w = (r, w1)"
    by (cases "randomSuffix w")
  obtain r' w1' where rs': "randomSuffix w' = (r', w1')"
    by (cases "randomSuffix w'")
  from alike_simple(4) [OF assms]
  have rr: "r' = r" and a1: "alike w1 w1'"
    unfolding rs rs' by simp_all
  let ?c = "NetlifySitesCreate (nameOr st base @ ''-'' @ decimal r)"
  obtain x w2 where ex: "execSync ?c w1 = (x, w2)"
    by (cases "execSync ?c w1")
  obtain x' w2' where ex': "execSync ?c w1' = (x', w2')"
    by (cases "execSync ?c w1'")
  from alike_simple(1) [OF a1, of ?c]
  have xx: "x' = x" and a2: "alike w2 w2'"
    unfolding ex ex' by simp_all
  have j: "json_site_id w2 = json_site_id w2'"
    using a2 by (simp add: alike_def)
  show ?thesis
  proof (cases x)
    case (Threw err)
    then show ?thesis
      using False f' rs rs' rr ex ex' xx a2 by (simp add: netlifyLinkSite_def)
  next
    case (Returned jsonOut)
    show ?thesis
    proof (cases "json_site_id w2' jsonOut")
      case None
      then show ?thesis
        using False f' rs rs' rr ex ex' xx a2 j Returned by (simp add: netlifyLinkSite_def)
    next
      case (Some siteId)
      then show ?thesis
        using False f' rs rs' rr ex ex' xx j Returned
          alike_simple(1) [OF a2, of "NetlifyLink siteId"]
        by (simp add: netlifyLinkSite_def)
    qed
  qed
qed

lemma alike_netlifyStage:
  assumes "alike w w'"
  shows "fst (netlifyStage base p st w) = fst (netlifyStage base p st w')
       \<and> alike (snd (netlifyStage base p st w)) (snd (netlifyStage base p st w'))"
proof (cases "netlify st")
  case True
  then show ?thesis
    using assms by (simp add: netlifyStage_def)
next
  case False
  let ?v = "netlifyLinkSite base p st w"
  let ?v' = "netlifyLinkSite base p st w'"
  have a0: "alike ?v ?v'"
    by (rule alike_netlifyLinkSite [OF assms])
  obtain x w1 where ex: "execSync NetlifyDeploy ?v = (x, w1)"
    by (cases "execSync NetlifyDeploy ?v")
  obtain x' w1' where ex': "execSync NetlifyDeploy ?v' = (x', w1')"
    by (cases "execSync NetlifyDeploy ?v'")
  from alike_simple(1) [OF a0, of NetlifyDeploy]
  have xx: "x' = x" and a1: "alike w1 w1'"
    unfolding ex ex' by simp_all
  show ?thesis
    using False ex ex' xx a1 alike_writeStatus [OF a1, of p "st\<lparr>netlify := True\<rparr>"]
    by (cases x) (simp_all add: netlifyStage_def)
qed

lemma alike_runStages:
  assumes "alike w w'"
  shows "fst (runStages base p st w) = fst (runStages base p st w')
       \<and> alike (snd (runStages base p st w)) (snd (runStages base p st w'))"
proof (cases "tree w p")
  case None
  then have "tree w' p = None"
    using alike_tree(1) [OF assms, of p] by simp
  with None show ?thesis
    using assms by (simp add: runStages_def chdir_def)
next
  case (Some node)
  then obtain node' where n': "tree w' p = Some node'"
    using alike_tree(2) [OF assms] by blast
  have cd: "chdir p w = (Inr (), w\<lparr>cwd := p\<rparr>)" "chdir p w' = (Inr (), w'\<lparr>cwd := p\<rparr>)"
    using Some n' by (simp_all add: chdir_def)
  have a0: "alike (w\<lparr>cwd := p\<rparr>) (w'\<lparr>cwd := p\<rparr>)"
    by (rule alike_simple(6) [OF assms])
  obtain g w2 where gp: "gitPrepare p (w\<lparr>cwd := p\<rparr>) = (g, w2)"
    by (cases "gitPrepare p (w\<lparr>cwd := p\<rparr>)")
  obtain g' w2' where gp': "gitPrepare p (w'\<lparr>cwd := p\<rparr>) = (g', w2')"
    by (cases "gitPrepare p (w'\<lparr>cwd := p\<rparr>)")
  from alike_gitPrepare [OF a0, of p]
  have gg: "g' = g" and a2: "alike w2 w2'"
    unfolding gp gp' by simp_all
  show ?thesis
  proof (cases g)
    case (Inl e)
    then show ?thesis
      using gg a2 by (simp add: runStages_def cd gp gp')
  next
    case (Inr u)
    obtain h w3 where gh: "githubStage base p st w2 = (h, w3)"
      by (cases "githubStage base p st w2")
    obtain h' w3' where gh': "githubStage base p st w2' = (h', w3')"
      by (cases "githubStage base p st w2'")
    from alike_githubStage [OF a2, of base p st]
    have hh: "h' = h" and a3: "alike w3 w3'"
      unfolding gh gh' by simp_all
    show ?thesis
    proof (cases h)
      case (Inl e)
      then show ?thesis
        using gg hh a3 \<open>g = Inr u\<close> by (simp add: runStages_def cd gp gp' gh gh')
    next
      case (Inr st1)
      obtain st2 w4 where vs: "vercelStage base p st1 w3 = (st2, w4)"
        by (cases "vercelStage base p st1 w3")
      obtain st2' w4' where vs': "vercelStage base p st1 w3' = (st2', w4')"
        by (cases "vercelStage base p st1 w3'")
      from alike_vercelStage [OF a3, of base p st1]
      have ss: "st2' = st2" and a4: "alike w4 w4'"
        unfolding vs vs' by simp_all
      obtain st3 w5 where ns: "netlifyStage base p st2 w4 = (st3, w5)"
        by (cases "netlifyStage base p st2 w4")
      obtain st3' w5' where ns': "netlifyStage base p st2 w4' = (st3', w5')"
        by (cases "netlifyStage base p st2 w4'")
      from alike_netlifyStage [OF a4, of base p st2]
      have tt: "st3' = st3" and a5: "alike w5 w5'"
        unfolding ns ns' by simp_all
      show ?thesis
        using gg hh ss tt a5 \<open>g = Inr u\<close> Inr
        by (simp add: runStages_def cd gp gp' gh gh' vs vs' ns ns')
    qed
  qed
qed

lemma alike_moveToDone:
  assumes "alike w w'"
  shows "fst (moveToDone root folder src st w) = fst (moveToDone root folder src st w')
       \<and> alike (snd (moveToDone root folder src st w)) (snd (moveToDone root folder src st w'))"
proof (cases "github st \<and> vercel st \<and> netlify st")
  case False
  have "moveToDone root folder src st w = (Inr Kept, w)"
    "moveToDone root folder src st w' = (Inr Kept, w')"
    unfolding moveToDone_def by (rule if_not_P, rule False)+
  then show ?thesis
    using assms by simp
next
  case True
  let ?v = "sleepSync 1000 (chdir_root root w)"
  let ?v' = "sleepSync 1000 (chdir_root root w')"
  have a0: "alike ?v ?v'"
    by (rule alike_simple(2) [OF alike_simple(3) [OF assms]])
  obtain d w1 where fd: "finalDest root folder ?v = (d, w1)"
    by (cases "finalDest root folder ?v")
  obtain d' w1' where fd': "finalDest root folder ?v' = (d', w1')"
    by (cases "finalDest root folder ?v'")
  have "fst (finalDest root folder ?v) = fst (finalDest root folder ?v')
      \<and> alike (snd (finalDest root folder ?v)) (snd (finalDest root folder ?v'))"
    using alike_tree(1) [OF a0, of "UPLOAD_DONE_DIR root @ [folder]"] alike_simple(5) [OF a0] a0
    by (auto simp: finalDest_def split: prod.splits)
  then have dd: "d' = d" and a1: "alike w1 w1'"
    unfolding fd fd' by simp_all
  obtain res w2 where mv: "moveFolderWithRetry root src d w1 = (res, w2)"
    by (cases "moveFolderWithRetry root src d w1")
  obtain res' w2' where mv': "moveFolderWithRetry root src d w1' = (res', w2')"
    by (cases "moveFolderWithRetry root src d w1'")
  from alike_moveLoop [OF alike_simple(3) [OF a1, of root], of src d 0]
  have rr: "res' = res" and a2: "alike w2 w2'"
    using mv mv' by (simp_all add: moveFolderWithRetry_def)
  show ?thesis
    using True fd fd' dd mv mv' rr a2
    by (simp add: moveToDone_def split: sum.splits move_outcome.splits)
qed

text \<open>A pass from the same loaded status, in worlds that differ in nothing but the
  contents of status files and the outcomes of reads.\<close>

lemma alike_pass:
  assumes "loadStatus w (root @ [folder]) = (Some st, w0)"
    and "loadStatus w' (root @ [folder]) = (Some st, w0')"
    and "alike w0 w0'"
  shows "fst (processFolder root folder index w) = fst (processFolder root folder index w')
       \<and> alike (snd (processFolder root folder index w)) (snd (processFolder root folder index w'))"
proof -
  let ?src = "root @ [folder]"
  obtain x w1 where rs: "runStages (baseName folder index) ?src st w0 = (x, w1)"
    by (cases "runStages (baseName folder index) ?src st w0")
  obtain x' w1' where rs': "runStages (baseName folder index) ?src st w0' = (x', w1')"
    by (cases "runStages (baseName folder index) ?src st w0'")
  from alike_runStages [OF assms(3), of "baseName folder index" ?src st]
  have xx: "x' = x" and a1: "alike w1 w1'"
    unfolding rs rs' by simp_all
  show ?thesis
  proof (cases x)
    case (Inl e)
    then show ?thesis
      using xx alike_simple(3) [OF a1, of root]
      by (simp add: processFolder_def assms(1,2) rs rs')
  next
    case (Inr st1)
    obtain y w2 where m: "moveToDone root folder ?src st1 w1 = (y, w2)"
      by (cases "moveToDone root folder ?src st1 w1")
    obtain y' w2' where m': "moveToDone root folder ?src st1 w1' = (y', w2')"
      by (cases "moveToDone root folder ?src st1 w1'")
    from alike_moveToDone [OF a1, of root folder ?src st1]
    have yy: "y' = y" and a2: "alike w2 w2'"
      unfolding m m' by simp_all
    show ?thesis
      using xx yy a2 Inr alike_simple(3) [OF a2, of root]
      by (cases y) (simp_all add: processFolder_def assms(1,2) rs rs' m m')
  qed
qed

section \<open>Loading the status file\<close>

lemma baseName_nonempty: "baseName folder index \<noteq> []"
  by (simp add: baseName_def)

text \<open>A pass whose load gave an object ends in one of the ways the loop body provides
  for; only \<^verbatim>\<open>null\<close> makes line 428 throw.\<close>

lemma processFolder_crash_iff:
  "fst (processFolder root folder index w) = Crashed
     \<longleftrightarrow> fst (loadStatus w (root @ [folder])) = None"
  by (auto simp: processFolder_def moveToDone_def
      split: prod.splits option.splits sum.splits if_splits move_outcome.splits)

text \<open>A load that fails soft leaves the pass where a folder with no status file
  would be.\<close>

lemma loadStatus_soft:
  assumes "tree w p = Some node"
    and "progress node = Absent \<or> read_script w 0 \<or> progress node = Malformed"
  shows "fst (loadStatus w p) = Some defaultStatus"
    and "alike (snd (loadStatus w p)) (without_file p w)"
    and "loadStatus (without_file p w) p = (Some defaultStatus, without_file p w)"
proof -
  show "fst (loadStatus w p) = Some defaultStatus"
    using assms by (auto simp: loadStatus_def readAndParse_def Let_def)
  show "alike (snd (loadStatus w p)) (without_file p w)"
    using assms
    by (auto simp: loadStatus_def readAndParse_def Let_def without_file_def alike_def blank_def)
  show "loadStatus (without_file p w) p = (Some defaultStatus, without_file p w)"
    using assms by (simp add: loadStatus_def without_file_def)
qed

text \<open>
  The three cases the script provides for.  When the sidecar file of a folder is
  absent, when reading it throws, or when its text is one \<^verbatim>\<open>JSON.parse\<close> throws on, the
  load throws nothing and the status the script works with is the default object: the
  three flags are false, \<^verbatim>\<open>repoName\<close> is \<^verbatim>\<open>null\<close>, and the name the stages use,
  \<^verbatim>\<open>status.repoName || baseName\<close>, is the name derived from the folder, which is never
  empty.  The pass over such a folder does not end the batch, and it is the pass the
  script would make if the folder had no status file: it ends the same way, has the
  same effects in the same order, and leaves a world that differs at most in what
  status files hold.
\<close>

theorem loadStatus_fails_soft:
  assumes "tree w (root @ [folder]) = Some node"
    and "progress node = Absent \<or> read_script w 0 \<or> progress node = Malformed"
  shows "fst (loadStatus w (root @ [folder])) = Some defaultStatus
       \<and> github defaultStatus = False
       \<and> vercel defaultStatus = False
       \<and> netlify defaultStatus = False
       \<and> repoName defaultStatus = None
       \<and> nameOr defaultStatus (baseName folder index) = baseName folder index
       \<and> baseName folder index \<noteq> []
       \<and> fst (processFolder root folder index w) \<noteq> Crashed
       \<and> fst (processFolder root folder index w)
           = fst (processFolder root folder index (without_file (root @ [folder]) w))
       \<and> trace (snd (processFolder root folder index w))
           = trace (snd (processFolder root folder index (without_file (root @ [folder]) w)))
       \<and> alike (snd (processFolder root folder index w))
           (snd (processFolder root folder index (without_file (root @ [folder]) w)))"
proof -
  let ?src = "root @ [folder]"
  note s = loadStatus_soft [OF assms]
  have l: "fst (loadStatus w ?src) = Some defaultStatus"
    by (rule s(1))
  then have nc: "fst (processFolder root folder index w) \<noteq> Crashed"
    by (simp add: processFolder_crash_iff)
  have ld: "loadStatus w ?src = (Some defaultStatus, snd (loadStatus w ?src))"
    using l by (simp add: prod_eq_iff)
  from alike_pass [OF ld s(3) s(2), of index]
  have e: "fst (processFolder root folder index w)
           = fst (processFolder root folder index (without_file ?src w))"
    and a: "alike (snd (processFolder root folder index w))
           (snd (processFolder root folder index (without_file ?src w)))"
    by simp_all
  from a have t: "trace (snd (processFolder root folder index w))
           = trace (snd (processFolder root folder index (without_file ?src w)))"
    by (simp add: alike_def)
  from l nc e t a show ?thesis
    by (simp add: defaultStatus_def nameOr_def baseName_nonempty)
qed

text \<open>A folder whose status file is complete but cannot be read is deployed again in
  full, as the same folder with no status file is.\<close>

theorem loadStatus_fails_soft_witness:
  "fst (loadStatus (app_world Malformed) [''batch'', ''app'']) = Some defaultStatus
   \<and> fst (loadStatus unreadable_done_world [''batch'', ''app'']) = Some defaultStatus
   \<and> nameOr defaultStatus (baseName ''app'' 0) = ''app''
   \<and> fst (processFolder [''batch''] ''app'' 0 unreadable_done_world) \<noteq> Crashed
   \<and> without_file [''batch'', ''app''] unreadable_done_world
       = (app_world Absent)\<lparr>read_script := (\<lambda>k. True)\<rparr>
   \<and> fst (processFolder [''batch''] ''app'' 0 unreadable_done_world)
       = fst (processFolder [''batch''] ''app'' 0 ((app_world Absent)\<lparr>read_script := (\<lambda>k. True)\<rparr>))
   \<and> trace (snd (processFolder [''batch''] ''app'' 0 unreadable_done_world))
       = trace (snd (processFolder [''batch''] ''app'' 0
                       ((app_world Absent)\<lparr>read_script := (\<lambda>k. True)\<rparr>)))
   \<and> trace (snd (processFolder [''batch''] ''app'' 0 ((app_world Absent)\<lparr>read_script := (\<lambda>k. True)\<rparr>)))
       = [Exec GitAdd, Exec GitCommit, Exec (GhRepoCreate ''app''),
          WriteStatus [''batch'', ''app'']
            \<lparr>github = True, vercel = False, netlify = False, repoName = Some ''app''\<rparr>,
          Exec (VercelProjectAdd ''app''), Exec VercelDeploy,
          WriteStatus [''batch'', ''app'']
            \<lparr>github = True, vercel = True, netlify = False, repoName = Some ''app''\<rparr>,
          Exec NetlifyDeploy,
          WriteStatus [''batch'', ''app'']
            \<lparr>github = True, vercel = True, netlify = True, repoName = Some ''app''\<rparr>,
          Sleep 1000, Rename [''batch'', ''app''] [''batch'', ''upload done'', ''app'']]"
proof -
  let ?abs = "(app_world Absent)\<lparr>read_script := (\<lambda>k. True)\<rparr>"
  have t: "tree (app_world f) ([''batch''] @ [''app''])
      = Some \<lparr>progress = f, has_git = True, has_gitignore = True, has_netlify = True\<rparr>"
    for f
    by (simp add: app_world_def quiet_world_def)
  have u: "tree unreadable_done_world ([''batch''] @ [''app''])
      = Some \<lparr>progress = Stored allDone, has_git = True, has_gitignore = True, has_netlify = True\<rparr>"
    "read_script unreadable_done_world 0"
    by (simp_all add: unreadable_done_world_def app_world_def quiet_world_def)
  have b: "baseName ''app'' 0 = ''app''"
    by (simp add: baseName_def cleanName_def toLowerCase_def is_space_def is_name_char_def
        trim_dashes_def)
  have wf: "without_file [''batch'', ''app''] unreadable_done_world = ?abs"
    by (simp add: without_file_def unreadable_done_world_def app_world_def quiet_world_def)
  have tr: "trace (snd (processFolder [''batch''] ''app'' 0 ?abs))
       = [Exec GitAdd, Exec GitCommit, Exec (GhRepoCreate ''app''),
          WriteStatus [''batch'', ''app'']
            \<lparr>github = True, vercel = False, netlify = False, repoName = Some ''app''\<rparr>,
          Exec (VercelProjectAdd ''app''), Exec VercelDeploy,
          WriteStatus [''batch'', ''app'']
            \<lparr>github = True, vercel = True, netlify = False, repoName = Some ''app''\<rparr>,
          Exec NetlifyDeploy,
          WriteStatus [''batch'', ''app'']
            \<lparr>github = True, vercel = True, netlify = True, repoName = Some ''app''\<rparr>,
          Sleep 1000, Rename [''batch'', ''app''] [''batch'', ''upload done'', ''app'']]"
    by (simp add: b run_simps)
  have m: "fst (loadStatus (app_world Malformed) [''batch'', ''app'']) = Some defaultStatus"
    using loadStatus_fails_soft [OF t [of Malformed], of 0] by simp
  have hyp: "progress \<lparr>progress = Stored allDone, has_git = True, has_gitignore = True,
                        has_netlify = True\<rparr> = Absent
      \<or> read_script unreadable_done_world 0
      \<or> progress \<lparr>progress = Stored allDone, has_git = True, has_gitignore = True,
                        has_netlify = True\<rparr> = Malformed"
    using u(2) by simp
  from loadStatus_fails_soft [OF u(1) hyp, of 0, unfolded append_Cons append_Nil, unfolded wf]
  have "fst (loadStatus unreadable_done_world [''batch'', ''app'']) = Some defaultStatus
       \<and> nameOr defaultStatus (baseName ''app'' 0) = baseName ''app'' 0
       \<and> fst (processFolder [''batch''] ''app'' 0 unreadable_done_world) \<noteq> Crashed
       \<and> fst (processFolder [''batch''] ''app'' 0 unreadable_done_world)
           = fst (processFolder [''batch''] ''app'' 0 ?abs)
       \<and> trace (snd (processFolder [''batch''] ''app'' 0 unreadable_done_world))
           = trace (snd (processFolder [''batch''] ''app'' 0 ?abs))"
    by blast
  with m tr wf show ?thesis
    unfolding b by blast
qed

text \<open>
  Claim C4 asks the same of every sidecar file that is not a well-formed record.  The
  script misses the case of a text that parses to something else: here the sidecar file
  of \<open>app\<close> holds the text \<^verbatim>\<open>null\<close>.  \<^verbatim>\<open>JSON.parse\<close> returns \<^verbatim>\<open>null\<close> without throwing, so
  the \<^verbatim>\<open>catch\<close> of line 413 is not entered, \<^verbatim>\<open>status\<close> is \<^verbatim>\<open>null\<close> and not a default record,
  and the pass ends with the TypeError of line 428, outside every \<^verbatim>\<open>try\<close>, before
  anything was done for this folder or for those that follow.
\<close>

theorem null_sidecar_is_loaded_as_null:
  "tree (app_world HoldsNull) [''batch'', ''app'']
     = Some \<lparr>progress = HoldsNull, has_git = True, has_gitignore = True, has_netlify = True\<rparr>
   \<and> fst (loadStatus (app_world HoldsNull) [''batch'', ''app'']) = None
   \<and> fst (processFolder [''batch''] ''app'' 0 (app_world HoldsNull)) = Crashed
   \<and> trace (snd (processFolder [''batch''] ''app'' 0 (app_world HoldsNull))) = []"
  by (simp add: processFolder_def loadStatus_def readAndParse_def app_world_def quiet_world_def)

section \<open>The GitHub stage when the repository could not be created\<close>

lemma candidate_nonempty: "candidate p n \<Longrightarrow> p \<noteq> [] \<Longrightarrow> n \<noteq> []"
  by (auto simp: candidate_def one_suffix_def)

text \<open>\<open>createGitHubRepo\<close> returns a name on every path, also after \<^verbatim>\<open>break\<close> and after
  the fifth collision, so \<^verbatim>\<open>if (finalRepoName)\<close> always holds: whenever the stage runs
  and the status file can be written, the \<open>github\<close> flag ends up true.\<close>

lemma githubStage_always_marks:
  assumes "\<not> github st" "base \<noteq> []" "fst (githubStage base projectPath st w) = Inr st'"
  shows "github st'"
proof -
  have "nameOr st base \<noteq> []"
    using assms(2) by (simp add: nameOr_def split: option.splits)
  moreover have "candidate (nameOr st base) (nameOr st base)"
    by (simp add: candidate_def)
  then have "candidate (nameOr st base) (fst (createGitHubRepo (nameOr st base) w))"
    unfolding createGitHubRepo_def
    using createLoop_events [of "nameOr st base" "nameOr st base" 0 w] by blast
  ultimately have "fst (createGitHubRepo (nameOr st base) w) \<noteq> []"
    by (rule candidate_nonempty [rotated])
  then show ?thesis
    using assms(1,3)
    by (auto simp: githubStage_def split: prod.splits bool.splits if_splits)
qed

text \<open>
  Claim C1, at the input where it fails.  The folder \<open>app\<close> has no status file and
  \<^verbatim>\<open>gh repo create\<close> fails with \<^verbatim>\<open>HTTP 401: Bad credentials\<close>.  The GitHub stage tries once,
  gives up, and all the same records \<open>github = true\<close> with the name of the repository
  that does not exist, in memory and in the status file.
\<close>

theorem githubStage_marks_failed_creation:
  "fst (githubStage ''app'' [''batch'', ''app''] defaultStatus gh_down_world)
     = Inr \<lparr>github = True, vercel = False, netlify = False, repoName = Some ''app''\<rparr>
   \<and> trace (snd (githubStage ''app'' [''batch'', ''app''] defaultStatus gh_down_world))
     = [Exec (GhRepoCreate ''app''),
        WriteStatus [''batch'', ''app'']
          \<lparr>github = True, vercel = False, netlify = False, repoName = Some ''app''\<rparr>]
   \<and> fst (loadStatus (snd (githubStage ''app'' [''batch'', ''app''] defaultStatus gh_down_world))
        [''batch'', ''app''])
     = Some \<lparr>github = True, vercel = False, netlify = False, repoName = Some ''app''\<rparr>"
  by (simp add: run_simps gh_down_world_def)

section \<open>The branch for an existing remote\<close>

text \<open>
  Claim C6, at the input where it fails.  \<^verbatim>\<open>gh repo create\<close> fails with
  \<^verbatim>\<open>X remote origin already exists\<close>.  That text contains \<^verbatim>\<open>already exists\<close>, which the
  script tests first, so it takes the branch for a taken name: it draws a suffix and
  creates \<open>app-4711\<close>.  Neither \<^verbatim>\<open>git push\<close> is run.
\<close>

theorem createGitHubRepo_remote_exists_renames:
  "fst (createGitHubRepo ''app'' remote_exists_world) = ''app-4711''
   \<and> trace (snd (createGitHubRepo ''app'' remote_exists_world))
       = [Exec (GhRepoCreate ''app''), Exec (GhRepoCreate ''app-4711'')]"
  by (simp add: run_simps remote_exists_world_def)

text \<open>The same for every world: all that \<open>createGitHubRepo\<close> ever runs is
  \<^verbatim>\<open>gh repo create\<close>, so its two \<^verbatim>\<open>git push\<close> calls are dead code.\<close>

lemma createGitHubRepo_never_pushes:
  "\<exists>es. trace (snd (createGitHubRepo projectName w)) = trace w @ es
      \<and> Exec GitPushMaster \<notin> set es \<and> Exec GitPushMain \<notin> set es"
proof -
  have "candidate projectName projectName"
    by (simp add: candidate_def)
  then obtain es where es: "trace (snd (createGitHubRepo projectName w)) = trace w @ es"
    "list_all (\<lambda>e. is_create e \<and> candidate projectName (created_name e)) es"
    unfolding createGitHubRepo_def
    using createLoop_events [of projectName projectName 0 w] by blast
  from es(2) have "Exec GitPushMaster \<notin> set es \<and> Exec GitPushMain \<notin> set es"
    by (auto simp: list_all_iff)
  with es(1) show ?thesis by blast
qed

section \<open>The current directory after a folder that is kept\<close>

text \<open>
  Claim C9, at the input where it fails.  The Vercel deployment of \<open>app\<close> fails, the
  other two steps succeed.  The folder is kept for a later run, and the script goes on
  to the next folder with the current directory still inside \<open>app\<close>: only the branch
  that moves the folder and the \<^verbatim>\<open>catch\<close> block change back to the batch root.
\<close>

theorem processFolder_kept_leaves_cwd:
  "fst (processFolder [''batch''] ''app'' 0 vercel_down_world) = Kept
   \<and> cwd vercel_down_world = [''batch'']
   \<and> cwd (snd (processFolder [''batch''] ''app'' 0 vercel_down_world)) = [''batch'', ''app'']"
  by (simp add: run_simps vercel_down_world_def baseName_def cleanName_def toLowerCase_def
      is_space_def is_name_char_def trim_dashes_def)

section \<open>What the runtime calls change\<close>

lemma execSync_frame [simp]:
  "tree (snd (execSync c w)) = tree w"
  "cwd (snd (execSync c w)) = cwd w"
  "trace (snd (execSync c w)) = trace w @ [Exec c]"
  "clock_script (snd (execSync c w)) = clock_script w"
  by (simp_all add: execSync_def)

lemma sleepSync_frame [simp]:
  "tree (sleepSync ms w) = tree w"
  "cwd (sleepSync ms w) = cwd w"
  "trace (sleepSync ms w) = trace w @ [Sleep ms]"
  "clock_script (sleepSync ms w) = clock_script w"
  by (simp_all add: sleepSync_def)

lemma chdir_root_frame [simp]:
  "tree (chdir_root root w) = tree w"
  "cwd (chdir_root root w) = root"
  "trace (chdir_root root w) = trace w"
  "clock_script (chdir_root root w) = clock_script w"
  by (simp_all add: chdir_root_def)

lemma randomSuffix_frame [simp]:
  "tree (snd (randomSuffix w)) = tree w"
  "cwd (snd (randomSuffix w)) = cwd w"
  "trace (snd (randomSuffix w)) = trace w"
  by (simp_all add: randomSuffix_def)

lemma renameSync_frame:
  "trace (snd (renameSync src dest w)) = trace w @ [Rename src dest]"
  "cwd (snd (renameSync src dest w)) = cwd w"
  "fst (renameSync src dest w) = None \<Longrightarrow>
     \<exists>node. tree w src = Some node \<and> tree (snd (renameSync src dest w)) = (tree w)(src := None, dest \<mapsto> node)"
  "fst (renameSync src dest w) = Some code \<Longrightarrow> tree (snd (renameSync src dest w)) = tree w"
  by (auto simp: renameSync_def Let_def split: option.splits)

text \<open>Whatever the renames answer: the loop only renames \<open>src\<close> to \<open>dest\<close>, sleeps 3000
  and runs \<^verbatim>\<open>taskkill\<close>; the tree changes only when it reports the move, and then by that
  one move.\<close>

lemma moveLoop_effect:
  "\<exists>es. trace (snd (moveLoop src dest a w)) = trace w @ es
      \<and> set es \<subseteq> {Rename src dest, Sleep 3000, Exec Taskkill}
      \<and> cwd (snd (moveLoop src dest a w)) = cwd w
      \<and> (if fst (moveLoop src dest a w) = Inr Moved
         then \<exists>node. tree w src = Some node
                \<and> tree (snd (moveLoop src dest a w)) = (tree w)(src := None, dest \<mapsto> node)
         else tree (snd (moveLoop src dest a w)) = tree w)"
proof (induction src dest a w rule: moveLoop.induct)
  case (1 src dest attempts w)
  obtain res w1 where rn: "renameSync src dest w = (res, w1)"
    by (cases "renameSync src dest w")
  note fr = renameSync_frame [of src dest w, unfolded rn fst_conv snd_conv]
  show ?case
  proof (cases "attempts < maxMoveAttempts")
    case False
    then show ?thesis
      by (subst (1 2 3 4 5) moveLoop.simps) simp
  next
    case True
    show ?thesis
    proof (cases res)
      case None
      then show ?thesis
        using True rn fr(1,2) fr(3)
        by (subst (1 2 3 4 5) moveLoop.simps) simp
    next
      case (Some code)
      show ?thesis
      proof (cases "is_lock_code code")
        case False
        then show ?thesis
          using True rn Some fr(1,2) fr(4) [of code]
          by (subst (1 2 3 4 5) moveLoop.simps) simp
      next
        case lock: True
        let ?w3 = "snd (execSync Taskkill (sleepSync 3000 w1))"
        have step: "moveLoop src dest attempts w = moveLoop src dest (attempts + 1) ?w3"
          using True rn Some lock by (subst moveLoop.simps) simp
        have w3: "trace ?w3 = trace w @ [Rename src dest, Sleep 3000, Exec Taskkill]"
          "tree ?w3 = tree w" "cwd ?w3 = cwd w"
          using fr(1,2) fr(4) [of code] Some by simp_all
        from "1.IH" [OF True rn [symmetric] Some lock]
        obtain es where es: "trace (snd (moveLoop src dest (attempts + 1) ?w3)) = trace ?w3 @ es"
          "set es \<subseteq> {Rename src dest, Sleep 3000, Exec Taskkill}"
          "cwd (snd (moveLoop src dest (attempts + 1) ?w3)) = cwd ?w3"
          "if fst (moveLoop src dest (attempts + 1) ?w3) = Inr Moved
           then \<exists>node. tree ?w3 src = Some node
                \<and> tree (snd (moveLoop src dest (attempts + 1) ?w3)) = (tree ?w3)(src := None, dest \<mapsto> node)
           else tree (snd (moveLoop src dest (attempts + 1) ?w3)) = tree ?w3"
          by blast
        show ?thesis
          unfolding step
          using es unfolding w3
          by (intro exI [of _ "[Rename src dest, Sleep 3000, Exec Taskkill] @ es"]) simp
      qed
    qed
  qed
qed

lemma moveFolderWithRetry_effect:
  "\<exists>es. trace (snd (moveFolderWithRetry root src dest w)) = trace w @ es
      \<and> set es \<subseteq> {Rename src dest, Sleep 3000, Exec Taskkill}
      \<and> cwd (snd (moveFolderWithRetry root src dest w)) = root
      \<and> (if fst (moveFolderWithRetry root src dest w) = Inr Moved
         then \<exists>node. tree w src = Some node
                \<and> tree (snd (moveFolderWithRetry root src dest w)) = (tree w)(src := None, dest \<mapsto> node)
         else tree (snd (moveFolderWithRetry root src dest w)) = tree w)"
proof -
  let ?w = "chdir_root root w"
  from moveLoop_effect [of src dest 0 ?w]
  obtain es where es: "trace (snd (moveLoop src dest 0 ?w)) = trace ?w @ es"
    "set es \<subseteq> {Rename src dest, Sleep 3000, Exec Taskkill}"
    "cwd (snd (moveLoop src dest 0 ?w)) = cwd ?w"
    "if fst (moveLoop src dest 0 ?w) = Inr Moved
     then \<exists>node. tree ?w src = Some node
            \<and> tree (snd (moveLoop src dest 0 ?w)) = (tree ?w)(src := None, dest \<mapsto> node)
     else tree (snd (moveLoop src dest 0 ?w)) = tree ?w"
    by blast
  show ?thesis
    unfolding moveFolderWithRetry_def
    using es by (intro exI [of _ es]) (simp split: if_splits)
qed


lemma finalDest_frame [simp]:
  "tree (snd (finalDest root folder w)) = tree w"
  "cwd (snd (finalDest root folder w)) = cwd w"
  "trace (snd (finalDest root folder w)) = trace w"
  "rename_script (snd (finalDest root folder w)) = rename_script w"
  "fst (finalDest root folder w)
     = (if tree w (UPLOAD_DONE_DIR root @ [folder]) \<noteq> None then stamped root folder w
        else UPLOAD_DONE_DIR root @ [folder])"
  by (simp_all add: finalDest_def dateNow_def stamped_def)

lemma rename_script_frame [simp]:
  "rename_script (sleepSync ms w) = rename_script w"
  "rename_script (chdir_root root w) = rename_script w"
  by (simp_all add: sleepSync_def chdir_root_def)

text \<open>The three paths in play are different: the folder lies directly under the root,
  both destinations one level deeper, and the stamped name is longer than the plain
  one.\<close>

lemma paths_distinct:
  "root @ [folder] \<noteq> UPLOAD_DONE_DIR root @ [x]"
  "UPLOAD_DONE_DIR root @ [x] \<noteq> root @ [folder]"
  "stamped root folder w \<noteq> UPLOAD_DONE_DIR root @ [folder]"
  "stamped root folder w \<noteq> root @ [folder]"
  by (auto simp: UPLOAD_DONE_DIR_def stamped_def)

lemma moveToDone_effect:
  assumes "github st \<and> vercel st \<and> netlify st"
  shows "\<exists>es. trace (snd (moveToDone root folder src st w)) = trace w @ Sleep 1000 # es
      \<and> set es \<subseteq> {Rename src (gateDest root folder w), Sleep 3000, Exec Taskkill}
      \<and> cwd (snd (moveToDone root folder src st w)) = root
      \<and> fst (moveToDone root folder src st w) \<noteq> Inr Kept
      \<and> (\<forall>d. fst (moveToDone root folder src st w) = Inr (Relocated d) \<longrightarrow> d = gateDest root folder w)
      \<and> (if fst (moveToDone root folder src st w) = Inr (Relocated (gateDest root folder w))
         then \<exists>node. tree w src = Some node
                \<and> tree (snd (moveToDone root folder src st w))
                    = (tree w)(src := None, gateDest root folder w \<mapsto> node)
         else tree (snd (moveToDone root folder src st w)) = tree w)"
proof -
  let ?w0 = "sleepSync 1000 (chdir_root root w)"
  let ?d = "gateDest root folder w"
  obtain d w1 where fd: "finalDest root folder ?w0 = (d, w1)"
    by (cases "finalDest root folder ?w0")
  have d: "d = ?d"
    using finalDest_frame(5) [of root folder ?w0] unfolding fd by (simp add: gateDest_def stamped_def)
  have w1: "tree w1 = tree w" "trace w1 = trace w @ [Sleep 1000]"
    using finalDest_frame(1,3) [of root folder ?w0] unfolding fd by simp_all
  obtain r w2 where mv: "moveFolderWithRetry root src ?d w1 = (r, w2)"
    by (cases "moveFolderWithRetry root src ?d w1")
  from moveFolderWithRetry_effect [of root src ?d w1]
  obtain es where es: "trace w2 = trace w1 @ es"
    "set es \<subseteq> {Rename src ?d, Sleep 3000, Exec Taskkill}"
    "cwd w2 = root"
    "if r = Inr Moved
     then \<exists>node. tree w1 src = Some node \<and> tree w2 = (tree w1)(src := None, ?d \<mapsto> node)
     else tree w2 = tree w1"
    unfolding mv fst_conv snd_conv by blast
  have md: "moveToDone root folder src st w =
      (case r of Inr Moved \<Rightarrow> (Inr (Relocated ?d), w2)
               | Inr GaveUp \<Rightarrow> (Inr MoveFailed, w2)
               | Inl code \<Rightarrow> (Inl (RenameFailed code), w2))"
    using assms by (simp add: moveToDone_def fd d mv)
  have tr: "trace w2 = trace w @ Sleep 1000 # es"
    using es(1) w1(2) by simp
  show ?thesis
  proof (cases r)
    case (Inl code)
    then have "tree w2 = tree w" using es(4) w1(1) by simp
    then show ?thesis
      using tr es(2,3) Inl unfolding md by (intro exI [of _ es]) simp
  next
    case (Inr oc)
    show ?thesis
    proof (cases oc)
      case Moved
      then have "\<exists>node. tree w src = Some node \<and> tree w2 = (tree w)(src := None, ?d \<mapsto> node)"
        using es(4) w1(1) Inr by simp
      then show ?thesis
        using tr es(2,3) Inr Moved unfolding md by (intro exI [of _ es]) simp
    next
      case GaveUp
      then have "tree w2 = tree w" using es(4) w1(1) Inr by simp
      then show ?thesis
        using tr es(2,3) Inr GaveUp unfolding md by (intro exI [of _ es]) simp
    qed
  qed
qed


section \<open>The relocation gate\<close>

text \<open>
  Claim C8.  When all three flags are true and \<^verbatim>\<open>upload done/folder\<close> already exists,
  every rename the script attempts has the name stamped with \<^verbatim>\<open>Date.now()\<close> as its
  target, which is a different path; if the folder is relocated it is found under that
  stamped name; and what was at \<^verbatim>\<open>upload done/folder\<close> before is still there unchanged.
\<close>

theorem collision_gets_stamped_name:
  assumes "github st \<and> vercel st \<and> netlify st"
    and "tree w (UPLOAD_DONE_DIR root @ [folder]) = Some old"
  shows "stamped root folder w \<noteq> UPLOAD_DONE_DIR root @ [folder]
       \<and> (\<exists>es. trace (snd (moveToDone root folder (root @ [folder]) st w)) = trace w @ es
             \<and> (\<forall>s d. Rename s d \<in> set es \<longrightarrow> s = root @ [folder] \<and> d = stamped root folder w))
       \<and> (\<forall>d. fst (moveToDone root folder (root @ [folder]) st w) = Inr (Relocated d) \<longrightarrow>
             d = stamped root folder w
           \<and> tree (snd (moveToDone root folder (root @ [folder]) st w)) (stamped root folder w)
               = tree w (root @ [folder])
           \<and> tree (snd (moveToDone root folder (root @ [folder]) st w)) (root @ [folder]) = None)
       \<and> tree (snd (moveToDone root folder (root @ [folder]) st w)) (UPLOAD_DONE_DIR root @ [folder])
           = Some old"
proof -
  let ?src = "root @ [folder]"
  let ?m = "moveToDone root folder ?src st w"
  have gd: "gateDest root folder w = stamped root folder w"
    using assms(2) by (simp add: gateDest_def)
  from moveToDone_effect [OF assms(1), of root folder ?src w]
  obtain es where es: "trace (snd ?m) = trace w @ Sleep 1000 # es"
    "set es \<subseteq> {Rename ?src (stamped root folder w), Sleep 3000, Exec Taskkill}"
    "\<forall>d. fst ?m = Inr (Relocated d) \<longrightarrow> d = stamped root folder w"
    "if fst ?m = Inr (Relocated (stamped root folder w))
     then \<exists>node. tree w ?src = Some node
            \<and> tree (snd ?m) = (tree w)(?src := None, stamped root folder w \<mapsto> node)
     else tree (snd ?m) = tree w"
    unfolding gd by blast
  have p1: "stamped root folder w \<noteq> UPLOAD_DONE_DIR root @ [folder]"
    by (rule paths_distinct)
  have p2: "\<exists>es. trace (snd ?m) = trace w @ es
             \<and> (\<forall>s d. Rename s d \<in> set es \<longrightarrow> s = ?src \<and> d = stamped root folder w)"
    using es(1,2) by (intro exI [of _ "Sleep 1000 # es"]) auto
  have moved: "tree (snd ?m) (stamped root folder w) = tree w ?src
           \<and> tree (snd ?m) ?src = None
           \<and> tree (snd ?m) (UPLOAD_DONE_DIR root @ [folder]) = Some old"
    if rel: "fst ?m = Inr (Relocated (stamped root folder w))"
  proof -
    from es(4) rel obtain node where node: "tree w ?src = Some node"
      and tm: "tree (snd ?m) = (tree w)(?src := None, stamped root folder w \<mapsto> node)"
      by auto
    have n1: "?src \<noteq> stamped root folder w"
      using paths_distinct(4) [of root folder w] by simp
    have n2: "UPLOAD_DONE_DIR root @ [folder] \<noteq> stamped root folder w"
      using p1 by simp
    have n3: "UPLOAD_DONE_DIR root @ [folder] \<noteq> ?src"
      by (rule paths_distinct(2))
    show ?thesis
      unfolding tm using node n1 n2 n3 assms(2) by (simp only: fun_upd_apply if_False if_True simp_thms)
  qed
  have p3: "\<forall>d. fst ?m = Inr (Relocated d) \<longrightarrow>
             d = stamped root folder w
           \<and> tree (snd ?m) (stamped root folder w) = tree w ?src
           \<and> tree (snd ?m) ?src = None"
  proof (intro allI impI)
    fix d
    assume rel: "fst ?m = Inr (Relocated d)"
    with es(3) have d: "d = stamped root folder w" by blast
    with rel moved show "d = stamped root folder w
           \<and> tree (snd ?m) (stamped root folder w) = tree w ?src
           \<and> tree (snd ?m) ?src = None"
      by blast
  qed
  have p4: "tree (snd ?m) (UPLOAD_DONE_DIR root @ [folder]) = Some old"
  proof (cases "fst ?m = Inr (Relocated (stamped root folder w))")
    case True
    with moved show ?thesis by blast
  next
    case False
    with es(4) have "tree (snd ?m) = tree w" by simp
    with assms(2) show ?thesis by simp
  qed
  show ?thesis
    using p1 p2 p3 p4 by blast
qed

theorem collision_gets_stamped_name_witness:
  "stamped [''batch''] ''app'' collision_world = [''batch'', ''upload done'', ''app_1700000000000'']
   \<and> fst (moveToDone [''batch''] ''app'' [''batch'', ''app''] allDone collision_world)
       = Inr (Relocated [''batch'', ''upload done'', ''app_1700000000000''])
   \<and> tree (snd (moveToDone [''batch''] ''app'' [''batch'', ''app''] allDone collision_world))
       [''batch'', ''upload done'', ''app''] = Some fresh_node
   \<and> tree (snd (moveToDone [''batch''] ''app'' [''batch'', ''app''] allDone collision_world))
       [''batch'', ''app''] = None"
proof -
  have a: "github allDone \<and> vercel allDone \<and> netlify allDone"
    by (simp add: allDone_def)
  have t: "tree collision_world (UPLOAD_DONE_DIR [''batch''] @ [''app'']) = Some fresh_node"
    by (simp add: collision_world_def quiet_world_def UPLOAD_DONE_DIR_def)
  have s: "stamped [''batch''] ''app'' collision_world
      = [''batch'', ''upload done'', ''app_1700000000000'']"
    by (simp add: stamped_def collision_world_def quiet_world_def UPLOAD_DONE_DIR_def
        decimal.simps digit_def)
  have r: "fst (moveToDone [''batch''] ''app'' [''batch'', ''app''] allDone collision_world)
       = Inr (Relocated [''batch'', ''upload done'', ''app_1700000000000''])"
    by (simp add: run_simps collision_world_def)
  show ?thesis
    using collision_gets_stamped_name [OF a t] r s
    by (simp add: UPLOAD_DONE_DIR_def)
qed

lemma moveToDone_succeeds:
  assumes "github st \<and> vercel st \<and> netlify st" "tree w src = Some node"
    "n < maxMoveAttempts" "\<forall>k<n. lock_failure (rename_script w k)" "rename_script w n = None"
  shows "fst (moveToDone root folder src st w) = Inr (Relocated (gateDest root folder w))"
proof -
  let ?w0 = "sleepSync 1000 (chdir_root root w)"
  obtain d w1 where fd: "finalDest root folder ?w0 = (d, w1)"
    by (cases "finalDest root folder ?w0")
  have d: "d = gateDest root folder w"
    using finalDest_frame(5) [of root folder ?w0] unfolding fd by (simp add: gateDest_def stamped_def)
  have w1: "tree w1 = tree w" "rename_script w1 = rename_script w"
    using finalDest_frame(1,4) [of root folder ?w0] unfolding fd by simp_all
  have "fst (moveLoop src d 0 (chdir_root root w1)) = Inr Moved"
    using assms(2-5) w1
    by (intro moveLoop_succeeds [THEN conjunct1, of 0 n _ _ node]) simp_all
  then have "fst (moveFolderWithRetry root src d w1) = Inr Moved"
    by (simp add: moveFolderWithRetry_def)
  then obtain w2 where "moveFolderWithRetry root src d w1 = (Inr Moved, w2)"
    by (cases "moveFolderWithRetry root src d w1") simp
  then show ?thesis
    using assms(1) d by (simp add: moveToDone_def fd)
qed

section \<open>When a folder is moved\<close>




section \<open>What the runtime calls leave alone\<close>

lemma files_frame [simp]:
  "read_script (snd (execSync c w)) = read_script w"
  "write_script (snd (execSync c w)) = write_script w"
  "read_script (sleepSync ms w) = read_script w"
  "write_script (sleepSync ms w) = write_script w"
  "read_script (chdir_root root w) = read_script w"
  "write_script (chdir_root root w) = write_script w"
  "read_script (snd (randomSuffix w)) = read_script w"
  "write_script (snd (randomSuffix w)) = write_script w"
  "read_script (snd (renameSync src dest w)) = read_script w"
  "write_script (snd (renameSync src dest w)) = write_script w"
  "read_script (snd (finalDest root folder w)) = read_script w"
  "write_script (snd (finalDest root folder w)) = write_script w"
  by (simp_all add: execSync_def sleepSync_def chdir_root_def randomSuffix_def renameSync_def
      finalDest_def dateNow_def Let_def split: option.splits)

lemma reliable_cong:
  "read_script w' = read_script w \<Longrightarrow> write_script w' = write_script w \<Longrightarrow> reliable w' = reliable w"
  by (simp add: reliable_def)

lemma reliable_after_write:
  "read_script w' = read_script w \<Longrightarrow> write_script w' = (\<lambda>k. write_script w (Suc k))
     \<Longrightarrow> reliable w \<Longrightarrow> reliable w'"
  by (simp add: reliable_def)

lemma reliable_after_read:
  "read_script w' = (\<lambda>k. read_script w (Suc k)) \<Longrightarrow> write_script w' = write_script w
     \<Longrightarrow> reliable w \<Longrightarrow> reliable w'"
  by (simp add: reliable_def)

lemma createLoop_files:
  "read_script (snd (createLoop p cur a w)) = read_script w
   \<and> write_script (snd (createLoop p cur a w)) = write_script w"
proof (induction p cur a w rule: createLoop.induct)
  case (1 projectName currentName attempts w)
  obtain x w1 where ex: "execSync (GhRepoCreate currentName) w = (x, w1)"
    by (cases "execSync (GhRepoCreate currentName) w")
  then have w1: "read_script w1 = read_script w" "write_script w1 = write_script w"
    using files_frame(1,2) [of "GhRepoCreate currentName" w] by simp_all
  show ?case
  proof (cases "attempts < maxCreateAttempts")
    case False
    then show ?thesis
      by (subst (1 2) createLoop.simps) simp
  next
    case True
    show ?thesis
    proof (cases x)
      case (Returned out)
      then show ?thesis
        using True ex w1 by (subst (1 2) createLoop.simps) simp
    next
      case (Threw errOutput)
      note ex = ex [unfolded Threw]
      show ?thesis
      proof (cases "str_includes errOutput ''already exists''
                    \<or> str_includes errOutput ''name already exists''")
        case taken: True
        obtain r w2 where rs: "randomSuffix w1 = (r, w2)"
          by (cases "randomSuffix w1")
        then have w2: "read_script w2 = read_script w1" "write_script w2 = write_script w1"
          using files_frame(7,8) [of w1] by simp_all
        have step: "createLoop projectName currentName attempts w
            = createLoop projectName (projectName @ ''-'' @ decimal r) (attempts + 1) w2"
          using True taken ex rs by (subst createLoop.simps) simp
        show ?thesis
          unfolding step
          using "1.IH" [OF True ex [symmetric] refl taken rs [symmetric]] w1 w2 by simp
      next
        case other: False
        then have "\<not> str_includes errOutput ''remote origin already exists''"
          using sublist_remote by blast
        then show ?thesis
          using True other ex w1 by (subst (1 2) createLoop.simps) simp
      qed
    qed
  qed
qed

lemma moveLoop_files:
  "read_script (snd (moveLoop src dest a w)) = read_script w
   \<and> write_script (snd (moveLoop src dest a w)) = write_script w"
proof (induction src dest a w rule: moveLoop.induct)
  case (1 src dest attempts w)
  obtain res w1 where rn: "renameSync src dest w = (res, w1)"
    by (cases "renameSync src dest w")
  then have w1: "read_script w1 = read_script w" "write_script w1 = write_script w"
    using files_frame(9,10) [of src dest w] by simp_all
  show ?case
  proof (cases "attempts < maxMoveAttempts")
    case False
    then show ?thesis
      by (subst (1 2) moveLoop.simps) simp
  next
    case True
    show ?thesis
    proof (cases res)
      case None
      then show ?thesis
        using True rn w1 by (subst (1 2) moveLoop.simps) simp
    next
      case (Some code)
      show ?thesis
      proof (cases "is_lock_code code")
        case False
        then show ?thesis
          using True rn Some w1 by (subst (1 2) moveLoop.simps) simp
      next
        case lock: True
        let ?w3 = "snd (execSync Taskkill (sleepSync 3000 w1))"
        have step: "moveLoop src dest attempts w = moveLoop src dest (attempts + 1) ?w3"
          using True rn Some lock by (subst moveLoop.simps) simp
        show ?thesis
          unfolding step
          using "1.IH" [OF True rn [symmetric] Some lock] w1 by simp
      qed
    qed
  qed
qed

text \<open>The first thing the loop does is try the rename.\<close>

lemma moveLoop_first_rename:
  assumes "a < maxMoveAttempts"
  shows "\<exists>es. trace (snd (moveLoop src dest a w)) = trace w @ Rename src dest # es
      \<and> set es \<subseteq> {Rename src dest, Sleep 3000, Exec Taskkill}"
proof -
  obtain res w1 where rn: "renameSync src dest w = (res, w1)"
    by (cases "renameSync src dest w")
  then have w1: "trace w1 = trace w @ [Rename src dest]"
    using renameSync_frame(1) [of src dest w] by simp
  show ?thesis
  proof (cases res)
    case None
    then show ?thesis
      using assms rn w1 by (subst (1) moveLoop.simps) simp
  next
    case (Some code)
    show ?thesis
    proof (cases "is_lock_code code")
      case False
      then show ?thesis
        using assms rn Some w1 by (subst (1) moveLoop.simps) simp
    next
      case True
      let ?w3 = "snd (execSync Taskkill (sleepSync 3000 w1))"
      have step: "moveLoop src dest a w = moveLoop src dest (a + 1) ?w3"
        using assms rn Some True by (subst moveLoop.simps) simp
      from moveLoop_effect [of src dest "a + 1" ?w3]
      obtain es where es: "trace (snd (moveLoop src dest (a + 1) ?w3)) = trace ?w3 @ es"
        "set es \<subseteq> {Rename src dest, Sleep 3000, Exec Taskkill}"
        by blast
      show ?thesis
        unfolding step using es w1
        by (intro exI [of _ "Sleep 3000 # Exec Taskkill # es"]) simp
    qed
  qed
qed

section \<open>The status on disk\<close>

lemma stored_tree: "tree w' = tree w \<Longrightarrow> stored w' p = stored w p"
  by (simp add: stored_def)

lemma stored_flag_exists:
  "github (stored w p) \<Longrightarrow> \<exists>node. tree w p = Some node"
  by (cases "tree w p") (simp_all add: stored_def defaultStatus_def)

text \<open>A load changes nothing but the outcomes of later reads.  What it returns is the
  default object, \<^verbatim>\<open>null\<close>, or the object the file holds; a loaded status with a flag set
  is the object the file holds.\<close>

lemma loadStatus_frame:
  "tree (snd (loadStatus w p)) = tree w"
  "trace (snd (loadStatus w p)) = trace w"
  "cwd (snd (loadStatus w p)) = cwd w"
  "write_script (snd (loadStatus w p)) = write_script w"
  "rename_script (snd (loadStatus w p)) = rename_script w"
  by (auto simp: loadStatus_def readAndParse_def Let_def split: option.splits sidecar.splits)

lemma loadStatus_reliable: "reliable w \<Longrightarrow> reliable (snd (loadStatus w p))"
  by (auto simp: loadStatus_def readAndParse_def Let_def reliable_def
      split: option.splits sidecar.splits)

lemma loadStatus_flagged:
  assumes "fst (loadStatus w p) = Some st" "github st \<or> vercel st \<or> netlify st"
  shows "stored w p = st"
  using assms
  by (auto simp: loadStatus_def readAndParse_def Let_def stored_def defaultStatus_def
      split: option.splits sidecar.splits if_splits)

lemma loadStatus_reads_stored:
  "\<not> read_script w 0 \<Longrightarrow> flags_of (fst (loadStatus w p)) = stored w p"
  by (auto simp: loadStatus_def readAndParse_def Let_def stored_def flags_of_def
      split: option.splits sidecar.splits)

lemma loadStatus_below_stored:
  "\<not> read_script w 0 \<Longrightarrow> fst (loadStatus w p) = Some st \<Longrightarrow> flags_le st (stored w p)"
  using loadStatus_reads_stored [of w p] by (simp add: flags_of_def flags_le_def)

section \<open>The git preparation\<close>

lemma writeGitignore_frame:
  "trace (snd (writeGitignore w)) = trace w @ [WriteGitignore (cwd w)]"
  "cwd (snd (writeGitignore w)) = cwd w"
  "stored (snd (writeGitignore w)) p = stored w p"
  "read_script (snd (writeGitignore w)) = read_script w"
  "write_script (snd (writeGitignore w)) = (\<lambda>k. write_script w (Suc k))"
  "rename_script (snd (writeGitignore w)) = rename_script w"
  by (auto simp: writeGitignore_def stored_def Let_def split: option.splits write_outcome.splits)

lemma gitInit_effect:
  "\<exists>es. trace (snd (gitInit p w)) = trace w @ es \<and> set es \<subseteq> {Exec GitInit}
      \<and> cwd (snd (gitInit p w)) = cwd w \<and> tree (snd (gitInit p w)) = tree w
      \<and> read_script (snd (gitInit p w)) = read_script w
      \<and> write_script (snd (gitInit p w)) = write_script w"
proof (cases "existsGit w p")
  case True
  then show ?thesis by (simp add: gitInit_def)
next
  case False
  obtain x w1 where ex: "execSync GitInit w = (x, w1)"
    by (cases "execSync GitInit w")
  then have "trace w1 = trace w @ [Exec GitInit]" "cwd w1 = cwd w" "tree w1 = tree w"
    "read_script w1 = read_script w" "write_script w1 = write_script w"
    using execSync_frame [of GitInit w] files_frame(1,2) [of GitInit w] by simp_all
  then show ?thesis
    using False ex
    by (cases x) (auto simp: gitInit_def intro!: exI [of _ "[Exec GitInit]"])
qed

lemma ensureGitignore_effect:
  "\<exists>es. trace (snd (ensureGitignore p w)) = trace w @ es \<and> set es \<subseteq> {WriteGitignore (cwd w)}
      \<and> cwd (snd (ensureGitignore p w)) = cwd w
      \<and> stored (snd (ensureGitignore p w)) q = stored w q
      \<and> (reliable w \<longrightarrow> reliable (snd (ensureGitignore p w)))"
proof (cases "existsGitignore w p")
  case True
  then show ?thesis by (simp add: ensureGitignore_def)
next
  case False
  obtain ok w1 where wr: "writeGitignore w = (ok, w1)"
    by (cases "writeGitignore w")
  then have w1: "trace w1 = trace w @ [WriteGitignore (cwd w)]" "cwd w1 = cwd w"
    "stored w1 q = stored w q" "read_script w1 = read_script w"
    "write_script w1 = (\<lambda>k. write_script w (Suc k))"
    using writeGitignore_frame [of w] by simp_all
  have "reliable w \<longrightarrow> reliable w1"
    using reliable_after_write [OF w1(4,5)] by blast
  then show ?thesis
    using False wr w1(1,2,3)
    by (cases ok) (auto simp: ensureGitignore_def intro!: exI [of _ "[WriteGitignore (cwd w)]"])
qed

lemma gitCommitAll_effect:
  "\<exists>es. trace (gitCommitAll w) = trace w @ es \<and> set es \<subseteq> {Exec GitAdd, Exec GitCommit}
      \<and> cwd (gitCommitAll w) = cwd w \<and> tree (gitCommitAll w) = tree w
      \<and> read_script (gitCommitAll w) = read_script w
      \<and> write_script (gitCommitAll w) = write_script w"
proof -
  obtain x w1 where ex: "execSync GitAdd w = (x, w1)"
    by (cases "execSync GitAdd w")
  then have w1: "trace w1 = trace w @ [Exec GitAdd]" "cwd w1 = cwd w" "tree w1 = tree w"
    "read_script w1 = read_script w" "write_script w1 = write_script w"
    using execSync_frame [of GitAdd w] files_frame(1,2) [of GitAdd w] by simp_all
  show ?thesis
  proof (cases x)
    case (Returned out)
    then show ?thesis
      using ex w1
      by (intro exI [of _ "[Exec GitAdd, Exec GitCommit]"]) (simp add: gitCommitAll_def)
  next
    case (Threw err)
    then show ?thesis
      using ex w1 by (intro exI [of _ "[Exec GitAdd]"]) (simp add: gitCommitAll_def)
  qed
qed

lemma gitPrepare_effect:
  "\<exists>es. trace (snd (gitPrepare p w)) = trace w @ es
      \<and> set es \<subseteq> {Exec GitInit, WriteGitignore (cwd w), Exec GitAdd, Exec GitCommit}
      \<and> cwd (snd (gitPrepare p w)) = cwd w
      \<and> stored (snd (gitPrepare p w)) q = stored w q
      \<and> (reliable w \<longrightarrow> reliable (snd (gitPrepare p w)))"
proof -
  obtain a w1 where gi: "gitInit p w = (a, w1)"
    by (cases "gitInit p w")
  from gitInit_effect [of p w] obtain es1 where e1: "trace w1 = trace w @ es1"
    "set es1 \<subseteq> {Exec GitInit}" "cwd w1 = cwd w" "tree w1 = tree w"
    "read_script w1 = read_script w" "write_script w1 = write_script w"
    unfolding gi snd_conv by blast
  obtain b w2 where eg: "ensureGitignore p w1 = (b, w2)"
    by (cases "ensureGitignore p w1")
  from ensureGitignore_effect [of p w1 q] obtain es2 where e2: "trace w2 = trace w1 @ es2"
    "set es2 \<subseteq> {WriteGitignore (cwd w1)}" "cwd w2 = cwd w1" "stored w2 q = stored w1 q"
    "reliable w1 \<longrightarrow> reliable w2"
    unfolding eg snd_conv by blast
  from gitCommitAll_effect [of w2] obtain es3 where e3: "trace (gitCommitAll w2) = trace w2 @ es3"
    "set es3 \<subseteq> {Exec GitAdd, Exec GitCommit}" "cwd (gitCommitAll w2) = cwd w2"
    "tree (gitCommitAll w2) = tree w2"
    "read_script (gitCommitAll w2) = read_script w2" "write_script (gitCommitAll w2) = write_script w2"
    by blast
  have l1: "stored w1 q = stored w q"
    using e1(4) by (rule stored_tree)
  have l3: "stored (gitCommitAll w2) q = stored w2 q"
    using e3(4) by (rule stored_tree)
  have r1: "reliable w1 = reliable w"
    using e1(5,6) by (rule reliable_cong)
  have r3: "reliable (gitCommitAll w2) = reliable w2"
    using e3(5,6) by (rule reliable_cong)
  show ?thesis
  proof (cases a)
    case (Inl e)
    then show ?thesis
      using gi e1 l1 r1 by (intro exI [of _ es1]) (auto simp: gitPrepare_def)
  next
    case (Inr u)
    show ?thesis
    proof (cases b)
      case (Inl e)
      then show ?thesis
        using gi Inr eg e1 e2 l1 r1
        by (intro exI [of _ "es1 @ es2"]) (auto simp: gitPrepare_def)
    next
      case (Inr u')
      then show ?thesis
        using gi \<open>a = Inr u\<close> eg e1 e2 e3 l1 l3 r1 r3
        by (intro exI [of _ "es1 @ es2 @ es3"]) (auto simp: gitPrepare_def)
    qed
  qed
qed

lemma gitPrepare_errors:
  "fst (gitPrepare p w) = Inl e \<Longrightarrow> e = WriteFailed \<or> (\<exists>err. e = ExecFailed GitInit err)"
  by (auto simp: gitPrepare_def gitInit_def ensureGitignore_def
      split: prod.splits sum.splits if_splits exec_result.splits bool.splits)

text \<open>The git preparation step by step: \<^verbatim>\<open>git init\<close> when \<^verbatim>\<open>.git\<close> is missing, the write
  of \<^verbatim>\<open>.gitignore\<close> when it is missing, \<^verbatim>\<open>git add\<close>, and \<^verbatim>\<open>git commit\<close> unless \<^verbatim>\<open>git add\<close>
  threw; a throwing \<^verbatim>\<open>git init\<close> or write ends it.\<close>

lemma gitPrepare_shape:
  "gitPrepare p w = (Inr u, w2) \<Longrightarrow>
     \<exists>ec. trace w2 = trace w @ (if existsGit w p then [] else [Exec GitInit])
                       @ (if existsGitignore w p then [] else [WriteGitignore (cwd w)])
                       @ Exec GitAdd # ec
        \<and> (ec = [] \<or> ec = [Exec GitCommit])"
  "gitPrepare p w = (Inl e, w2) \<Longrightarrow>
     \<not> existsGit w p \<and> trace w2 = trace w @ [Exec GitInit] \<and> (\<exists>err. e = ExecFailed GitInit err)
     \<or> \<not> existsGitignore w p \<and> e = WriteFailed
        \<and> trace w2 = trace w @ (if existsGit w p then [] else [Exec GitInit])
                         @ [WriteGitignore (cwd w)]"
proof -
  have g: "existsGitignore (snd (execSync c v)) p = existsGitignore v p" for c v
    by (simp add: existsGitignore_def execSync_def)
  have t: "trace (snd (writeGitignore v)) = trace v @ [WriteGitignore (cwd v)]" for v
    by (rule writeGitignore_frame(1))
  have c: "cwd (snd (execSync c v)) = cwd v" for c v
    by (simp add: execSync_def)
  have a: "\<exists>ec. trace (gitCommitAll v) = trace v @ Exec GitAdd # ec
      \<and> (ec = [] \<or> ec = [Exec GitCommit])" for v
    by (simp add: gitCommitAll_def execSync_def split: prod.splits exec_result.splits)
  obtain x w1 where gi: "gitInit p w = (x, w1)"
    by (cases "gitInit p w")
  have i: "trace w1 = trace w @ (if existsGit w p then [] else [Exec GitInit])"
    "cwd w1 = cwd w" "existsGitignore w1 p = existsGitignore w p"
    "\<forall>e. x = Inl e \<longrightarrow> \<not> existsGit w p \<and> (\<exists>err. e = ExecFailed GitInit err)"
    using gi by (auto simp: gitInit_def execSync_def existsGitignore_def
        split: if_splits exec_result.splits)
  obtain y w1' where eg: "ensureGitignore p w1 = (y, w1')"
    by (cases "ensureGitignore p w1")
  have j: "trace w1' = trace w1 @ (if existsGitignore w p then [] else [WriteGitignore (cwd w)])"
    "\<forall>e. y = Inl e \<longrightarrow> \<not> existsGitignore w p \<and> e = WriteFailed"
    using eg i(2,3) t [of w1]
    by (auto simp: ensureGitignore_def split: if_splits prod.splits bool.splits)
  show "\<exists>ec. trace w2 = trace w @ (if existsGit w p then [] else [Exec GitInit])
                       @ (if existsGitignore w p then [] else [WriteGitignore (cwd w)])
                       @ Exec GitAdd # ec
        \<and> (ec = [] \<or> ec = [Exec GitCommit])"
    if "gitPrepare p w = (Inr u, w2)"
  proof -
    from that have "w2 = gitCommitAll w1'"
      using gi eg by (cases x; cases y) (simp_all add: gitPrepare_def)
    then show ?thesis
      using a [of w1'] i(1) j(1) by auto
  qed
  show "\<not> existsGit w p \<and> trace w2 = trace w @ [Exec GitInit] \<and> (\<exists>err. e = ExecFailed GitInit err)
     \<or> \<not> existsGitignore w p \<and> e = WriteFailed
        \<and> trace w2 = trace w @ (if existsGit w p then [] else [Exec GitInit])
                         @ [WriteGitignore (cwd w)]"
    if "gitPrepare p w = (Inl e, w2)"
  proof (cases x)
    case (Inl e')
    then have "e = e'" "w2 = w1"
      using that gi by (simp_all add: gitPrepare_def)
    then show ?thesis
      using i(1,4) Inl by auto
  next
    case (Inr u')
    then have "y = Inl e" "w2 = w1'"
      using that gi eg by (cases y; simp add: gitPrepare_def)+
    then show ?thesis
      using i(1) j by auto
  qed
qed

lemma moveToDone_errors:
  "fst (moveToDone root folder src st w) = Inl e \<Longrightarrow> \<exists>code. e = RenameFailed code"
  by (auto simp: moveToDone_def split: prod.splits sum.splits if_splits move_outcome.splits)

lemma runStages_all_done:
  assumes "github st \<and> vercel st \<and> netlify st" "tree w p = Some node"
  shows "runStages base p st w =
           (case gitPrepare p (w\<lparr>cwd := p\<rparr>) of
              (Inl fatalErr, w2) \<Rightarrow> (Inl fatalErr, w2)
            | (Inr u, w2) \<Rightarrow> (Inr st, w2))"
  using assms
  by (simp add: runStages_def chdir_def githubStage_def vercelStage_def netlifyStage_def
      split: prod.splits sum.splits)

text \<open>With all three flags true the move is begun: a sleep of 1000, then the first
  rename.\<close>

lemma moveToDone_first_rename:
  assumes "github st \<and> vercel st \<and> netlify st"
  shows "\<exists>es. trace (snd (moveToDone root folder src st w))
          = trace w @ Sleep 1000 # Rename src (gateDest root folder w) # es
      \<and> set es \<subseteq> {Rename src (gateDest root folder w), Sleep 3000, Exec Taskkill}"
proof -
  let ?w0 = "sleepSync 1000 (chdir_root root w)"
  let ?d = "gateDest root folder w"
  obtain d w1 where fd: "finalDest root folder ?w0 = (d, w1)"
    by (cases "finalDest root folder ?w0")
  have d: "d = ?d"
    using finalDest_frame(5) [of root folder ?w0] unfolding fd by (simp add: gateDest_def stamped_def)
  have w1: "trace w1 = trace w @ [Sleep 1000]"
    using finalDest_frame(3) [of root folder ?w0] unfolding fd by simp
  obtain r w2 where mv: "moveFolderWithRetry root src ?d w1 = (r, w2)"
    by (cases "moveFolderWithRetry root src ?d w1")
  have "0 < maxMoveAttempts"
    by (simp add: maxMoveAttempts_def)
  from moveLoop_first_rename [OF this, of src ?d "chdir_root root w1"]
  obtain es where es: "trace w2 = trace w1 @ Rename src ?d # es"
    "set es \<subseteq> {Rename src ?d, Sleep 3000, Exec Taskkill}"
    using mv unfolding moveFolderWithRetry_def by auto
  have "snd (moveToDone root folder src st w) = w2"
    using assms by (simp add: moveToDone_def fd d mv split: sum.splits move_outcome.splits)
  then show ?thesis
    using es w1 by (intro exI [of _ es]) simp
qed

lemma gateDest_not_src: "gateDest root folder w \<noteq> root @ [folder]"
  using paths_distinct(2) [of root folder folder] paths_distinct(4) [of root folder w]
  by (simp add: gateDest_def)

section \<open>Stages that are already done\<close>

text \<open>
  Claim C5, as the script has it.  A stage whose flag is true does nothing at all: no
  command, no write, the world is untouched.  Let the load of a folder give a status
  with all three flags true.  The pass then first runs the git preparation of lines
  434--436, in this order and nothing else: \<^verbatim>\<open>git init\<close> when \<^verbatim>\<open>.git\<close> is missing, the
  write of \<^verbatim>\<open>.gitignore\<close> when it is missing, \<^verbatim>\<open>git add\<close>, and \<^verbatim>\<open>git commit\<close> unless
  \<^verbatim>\<open>git add\<close> threw.  If \<^verbatim>\<open>git init\<close> or that write throws, the pass ends there, in the
  \<^verbatim>\<open>catch\<close> block.  Otherwise it goes straight on to the
  move: it sleeps 1000\,ms and tries the rename to the destination, followed by
  nothing but further attempts, and the folder is moved there when a rename succeeds
  after fewer than ten lock failures.  At no point is anything sent to \<^verbatim>\<open>gh\<close>,
  \<^verbatim>\<open>vercel\<close> or \<^verbatim>\<open>netlify\<close>, pushed, or written to the status file.
\<close>

theorem done_stages_are_skipped:
  "(github st \<longrightarrow> githubStage base projectPath st w = (Inr st, w))
   \<and> (vercel st \<longrightarrow> vercelStage base projectPath st w = (st, w))
   \<and> (netlify st \<longrightarrow> netlifyStage base projectPath st w = (st, w))
   \<and> (\<forall>status w0 prep w2.
         loadStatus w (root @ [folder]) = (Some status, w0)
         \<and> github status \<and> vercel status \<and> netlify status
         \<and> gitPrepare (root @ [folder]) (w0\<lparr>cwd := root @ [folder]\<rparr>) = (prep, w2) \<longrightarrow>
           (\<exists>es1. trace w2 = trace w @ es1
               \<and> set es1 \<subseteq> {Exec GitInit, WriteGitignore (root @ [folder]), Exec GitAdd,
                              Exec GitCommit})
         \<and> (\<exists>es. trace (snd (processFolder root folder index w)) = trace w @ es
               \<and> list_all (\<lambda>e. \<not> stage_event e) es)
         \<and> (\<forall>e. prep = Inl e \<longrightarrow>
               processFolder root folder index w = (Errored e, chdir_root root w2)
             \<and> (e = WriteFailed \<or> (\<exists>err. e = ExecFailed GitInit err))
             \<and> (e \<noteq> WriteFailed \<and> \<not> existsGit w (root @ [folder])
                   \<and> trace w2 = trace w @ [Exec GitInit]
                 \<or> e = WriteFailed \<and> \<not> existsGitignore w (root @ [folder])
                   \<and> trace w2 = trace w
                         @ (if existsGit w (root @ [folder]) then [] else [Exec GitInit])
                         @ [WriteGitignore (root @ [folder])]))
         \<and> (\<forall>u. prep = Inr u \<longrightarrow>
               fst (processFolder root folder index w) \<noteq> Kept
             \<and> (\<exists>ec. trace w2 = trace w
                         @ (if existsGit w (root @ [folder]) then [] else [Exec GitInit])
                         @ (if existsGitignore w (root @ [folder]) then []
                            else [WriteGitignore (root @ [folder])])
                         @ Exec GitAdd # ec
                   \<and> (ec = [] \<or> ec = [Exec GitCommit]))
             \<and> (\<exists>es2. trace (snd (processFolder root folder index w))
                       = trace w2 @ Sleep 1000
                           # Rename (root @ [folder]) (gateDest root folder w2) # es2
                   \<and> set es2 \<subseteq> {Rename (root @ [folder]) (gateDest root folder w2),
                                  Sleep 3000, Exec Taskkill})
             \<and> ((\<exists>n<maxMoveAttempts. (\<forall>k<n. lock_failure (rename_script w2 k))
                      \<and> rename_script w2 n = None) \<longrightarrow>
                   fst (processFolder root folder index w)
                     = Relocated (gateDest root folder w2)
                 \<and> tree w2 (root @ [folder]) \<noteq> None
                 \<and> tree (snd (processFolder root folder index w)) (root @ [folder]) = None
                 \<and> tree (snd (processFolder root folder index w)) (gateDest root folder w2)
                     = tree w2 (root @ [folder]))))"
proof -
  let ?src = "root @ [folder]"
  let ?pf = "processFolder root folder index w"
  have skip: "(github st \<longrightarrow> githubStage base projectPath st w = (Inr st, w))
   \<and> (vercel st \<longrightarrow> vercelStage base projectPath st w = (st, w))
   \<and> (netlify st \<longrightarrow> netlifyStage base projectPath st w = (st, w))"
    by (simp add: githubStage_def vercelStage_def netlifyStage_def)
  have pass: "(\<exists>es1. trace w2 = trace w @ es1
               \<and> set es1 \<subseteq> {Exec GitInit, WriteGitignore ?src, Exec GitAdd, Exec GitCommit})
         \<and> (\<exists>es. trace (snd ?pf) = trace w @ es \<and> list_all (\<lambda>e. \<not> stage_event e) es)
         \<and> (\<forall>e. prep = Inl e \<longrightarrow>
               ?pf = (Errored e, chdir_root root w2)
             \<and> (e = WriteFailed \<or> (\<exists>err. e = ExecFailed GitInit err))
             \<and> (e \<noteq> WriteFailed \<and> \<not> existsGit w ?src
                   \<and> trace w2 = trace w @ [Exec GitInit]
                 \<or> e = WriteFailed \<and> \<not> existsGitignore w ?src
                   \<and> trace w2 = trace w
                         @ (if existsGit w ?src then [] else [Exec GitInit])
                         @ [WriteGitignore ?src]))
         \<and> (\<forall>u. prep = Inr u \<longrightarrow>
               fst ?pf \<noteq> Kept
             \<and> (\<exists>ec. trace w2 = trace w
                         @ (if existsGit w ?src then [] else [Exec GitInit])
                         @ (if existsGitignore w ?src then [] else [WriteGitignore ?src])
                         @ Exec GitAdd # ec
                   \<and> (ec = [] \<or> ec = [Exec GitCommit]))
             \<and> (\<exists>es2. trace (snd ?pf)
                       = trace w2 @ Sleep 1000 # Rename ?src (gateDest root folder w2) # es2
                   \<and> set es2 \<subseteq> {Rename ?src (gateDest root folder w2), Sleep 3000, Exec Taskkill})
             \<and> ((\<exists>n<maxMoveAttempts. (\<forall>k<n. lock_failure (rename_script w2 k))
                      \<and> rename_script w2 n = None) \<longrightarrow>
                   fst ?pf = Relocated (gateDest root folder w2)
                 \<and> tree w2 ?src \<noteq> None
                 \<and> tree (snd ?pf) ?src = None
                 \<and> tree (snd ?pf) (gateDest root folder w2) = tree w2 ?src))"
    if ld: "loadStatus w ?src = (Some status, w0)"
      and alld: "github status \<and> vercel status \<and> netlify status"
      and gp: "gitPrepare ?src (w0\<lparr>cwd := ?src\<rparr>) = (prep, w2)"
    for status w0 prep w2
  proof -
    let ?d = "gateDest root folder w2"
    have w0: "tree w0 = tree w" "trace w0 = trace w"
      using loadStatus_frame(1,2) [of w ?src] ld by simp_all
    have st0: "stored w0 ?src = status"
      using loadStatus_flagged [of w ?src status] ld alld stored_tree [OF w0(1), of ?src] by simp
    then obtain node where node: "tree w0 ?src = Some node"
      using stored_flag_exists [of w0 ?src] alld by auto
    from gitPrepare_effect [of ?src "w0\<lparr>cwd := ?src\<rparr>" ?src]
    obtain es1 where e1: "trace w2 = trace w @ es1"
      "set es1 \<subseteq> {Exec GitInit, WriteGitignore ?src, Exec GitAdd, Exec GitCommit}"
      and st2': "stored w2 ?src = stored (w0\<lparr>cwd := ?src\<rparr>) ?src"
      unfolding gp snd_conv using w0(2) by auto
    have st2: "stored w2 ?src = status"
      using st2' st0 by (simp add: stored_def)
    then obtain node2 where node2: "tree w2 ?src = Some node2"
      using stored_flag_exists [of w2 ?src] alld by auto
    from e1(2) have q1: "list_all (\<lambda>e. \<not> stage_event e) es1"
      by (auto simp: list_all_iff)
    have rs: "runStages (baseName folder index) ?src status w0 =
        (case prep of Inl fatalErr \<Rightarrow> (Inl fatalErr, w2) | Inr u \<Rightarrow> (Inr status, w2))"
      using runStages_all_done [OF alld node, of "baseName folder index"] unfolding gp by simp
    have ex0: "existsGit (w0\<lparr>cwd := ?src\<rparr>) ?src = existsGit w ?src"
      "existsGitignore (w0\<lparr>cwd := ?src\<rparr>) ?src = existsGitignore w ?src"
      by (simp_all add: existsGit_def existsGitignore_def w0(1))
    have cw: "cwd (w0\<lparr>cwd := ?src\<rparr>) = ?src" "trace (w0\<lparr>cwd := ?src\<rparr>) = trace w"
      using w0(2) by simp_all
    have p1: "\<exists>es1. trace w2 = trace w @ es1
               \<and> set es1 \<subseteq> {Exec GitInit, WriteGitignore ?src, Exec GitAdd, Exec GitCommit}"
      using e1 by blast
    show ?thesis
    proof (cases prep)
      case (Inl e)
      then have pf: "?pf = (Errored e, chdir_root root w2)"
        using rs by (simp add: processFolder_def ld)
      have er: "e = WriteFailed \<or> (\<exists>err. e = ExecFailed GitInit err)"
        using gitPrepare_errors [of ?src "w0\<lparr>cwd := ?src\<rparr>" e] gp Inl by simp
      have sh: "e \<noteq> WriteFailed \<and> \<not> existsGit w ?src
                   \<and> trace w2 = trace w @ [Exec GitInit]
                 \<or> e = WriteFailed \<and> \<not> existsGitignore w ?src
                   \<and> trace w2 = trace w
                         @ (if existsGit w ?src then [] else [Exec GitInit])
                         @ [WriteGitignore ?src]"
        using gitPrepare_shape(2) [OF gp [unfolded Inl]] unfolding ex0 cw by auto
      have p2: "\<exists>es. trace (snd ?pf) = trace w @ es \<and> list_all (\<lambda>e. \<not> stage_event e) es"
        unfolding pf using e1(1) q1 by (intro exI [of _ es1]) simp
      show ?thesis
        using p1 p2 pf er sh Inl by simp
    next
      case (Inr u)
      then have rs': "runStages (baseName folder index) ?src status w0 = (Inr status, w2)"
        using rs by simp
      obtain x w3 where m: "moveToDone root folder ?src status w2 = (x, w3)"
        by (cases "moveToDone root folder ?src status w2")
      have pf: "?pf = (case x of Inl fatalErr \<Rightarrow> (Errored fatalErr, chdir_root root w3)
                              | Inr outcome \<Rightarrow> (outcome, w3))"
        by (simp add: processFolder_def ld rs' m)
      have fst_pf: "fst ?pf = (case x of Inl fatalErr \<Rightarrow> Errored fatalErr | Inr outcome \<Rightarrow> outcome)"
        and tr_pf: "trace (snd ?pf) = trace w3" and tree_pf: "tree (snd ?pf) = tree w3"
        unfolding pf by (simp_all split: sum.splits)
      from moveToDone_first_rename [OF alld, of root folder ?src w2]
      obtain es2 where e2: "trace w3 = trace w2 @ Sleep 1000 # Rename ?src ?d # es2"
        "set es2 \<subseteq> {Rename ?src ?d, Sleep 3000, Exec Taskkill}"
        unfolding m snd_conv by blast
      from moveToDone_effect [OF alld, of root folder ?src w2]
      have notkept: "x \<noteq> Inr Kept"
        and tr: "if x = Inr (Relocated ?d)
           then \<exists>node. tree w2 ?src = Some node \<and> tree w3 = (tree w2)(?src := None, ?d \<mapsto> node)
           else tree w3 = tree w2"
        unfolding m fst_conv snd_conv by blast+
      from e2(2) have q2: "list_all (\<lambda>e. \<not> stage_event e) (Sleep 1000 # Rename ?src ?d # es2)"
        by (auto simp: list_all_iff)
      have p2: "\<exists>es. trace (snd ?pf) = trace w @ es \<and> list_all (\<lambda>e. \<not> stage_event e) es"
        unfolding tr_pf using e1(1) e2(1) q1 q2
        by (intro exI [of _ "es1 @ Sleep 1000 # Rename ?src ?d # es2"]) simp
      have sh: "\<exists>ec. trace w2 = trace w
                         @ (if existsGit w ?src then [] else [Exec GitInit])
                         @ (if existsGitignore w ?src then [] else [WriteGitignore ?src])
                         @ Exec GitAdd # ec
                   \<and> (ec = [] \<or> ec = [Exec GitCommit])"
        using gitPrepare_shape(1) [OF gp [unfolded Inr]] unfolding ex0 cw .
      have k: "fst ?pf \<noteq> Kept"
        unfolding fst_pf using notkept by (auto split: sum.splits)
      have p4: "\<exists>es2. trace (snd ?pf) = trace w2 @ Sleep 1000 # Rename ?src ?d # es2
                   \<and> set es2 \<subseteq> {Rename ?src ?d, Sleep 3000, Exec Taskkill}"
        unfolding tr_pf using e2 by blast
      have p5: "fst ?pf = Relocated ?d \<and> tree w2 ?src \<noteq> None \<and> tree (snd ?pf) ?src = None
                 \<and> tree (snd ?pf) ?d = tree w2 ?src"
        if ok: "\<exists>n<maxMoveAttempts. (\<forall>k<n. lock_failure (rename_script w2 k))
                      \<and> rename_script w2 n = None"
      proof -
        from ok obtain n where n: "n < maxMoveAttempts"
          "\<forall>k<n. lock_failure (rename_script w2 k)" "rename_script w2 n = None"
          by blast
        from moveToDone_succeeds [OF alld node2 n, of root folder]
        have x: "x = Inr (Relocated ?d)"
          unfolding m by simp
        with tr obtain node' where t3: "tree w2 ?src = Some node'"
          "tree w3 = (tree w2)(?src := None, ?d \<mapsto> node')"
          by auto
        have ne: "?src \<noteq> ?d"
          using gateDest_not_src [of root folder w2] by simp
        have "tree w3 ?src = None" "tree w3 ?d = tree w2 ?src"
          unfolding t3(2) using ne t3(1) by simp_all
        then show ?thesis
          unfolding fst_pf tree_pf using x t3(1) by simp
      qed
      show ?thesis
        using p1 p2 k sh p4 p5 Inr by simp
    qed
  qed
  show ?thesis
    using skip pass by blast
qed

theorem done_stages_are_skipped_witness:
  "githubStage ''app'' [''batch'', ''app''] allDone (app_world (Stored allDone))
     = (Inr allDone, app_world (Stored allDone))
   \<and> vercelStage ''app'' [''batch'', ''app''] allDone (app_world (Stored allDone))
     = (allDone, app_world (Stored allDone))
   \<and> netlifyStage ''app'' [''batch'', ''app''] allDone (app_world (Stored allDone))
     = (allDone, app_world (Stored allDone))
   \<and> fst (processFolder [''batch''] ''app'' 0 (app_world (Stored allDone)))
     = Relocated [''batch'', ''upload done'', ''app'']
   \<and> tree (snd (processFolder [''batch''] ''app'' 0 (app_world (Stored allDone))))
       [''batch'', ''app''] = None"
proof -
  let ?w = "app_world (Stored allDone)"
  let ?src = "[''batch''] @ [''app'']"
  let ?l = "loadStatus ?w ?src"
  let ?g = "gitPrepare ?src ((snd ?l)\<lparr>cwd := ?src\<rparr>)"
  have a: "github allDone" "vercel allDone" "netlify allDone"
    by (simp_all add: allDone_def)
  have hl: "?l = (Some allDone, snd ?l)"
    by (simp add: prod_eq_iff run_simps)
  have hg: "?g = (Inr (), snd ?g)"
    by (simp add: prod_eq_iff run_simps)
  have r: "rename_script (snd ?g) 0 = None"
    "gateDest [''batch''] ''app'' (snd ?g) = [''batch'', ''upload done'', ''app'']"
    by (simp_all add: run_simps gateDest_def)
  have ex: "\<exists>n<maxMoveAttempts. (\<forall>k<n. lock_failure (rename_script (snd ?g) k))
      \<and> rename_script (snd ?g) n = None"
    using r(1) by (intro exI [of _ 0]) (simp add: maxMoveAttempts_def)
  note T = done_stages_are_skipped [of allDone "''app''" "[''batch'', ''app'']" ?w
      "[''batch'']" "''app''" 0]
  have skips: "githubStage ''app'' [''batch'', ''app''] allDone ?w = (Inr allDone, ?w)
      \<and> vercelStage ''app'' [''batch'', ''app''] allDone ?w = (allDone, ?w)
      \<and> netlifyStage ''app'' [''batch'', ''app''] allDone ?w = (allDone, ?w)"
    using T a by simp
  have pre: "loadStatus ?w ?src = (Some allDone, snd ?l)
         \<and> github allDone \<and> vercel allDone \<and> netlify allDone
         \<and> gitPrepare ?src ((snd ?l)\<lparr>cwd := ?src\<rparr>) = (Inr (), snd ?g)"
    using hl hg a by simp
  from T [THEN conjunct2, THEN conjunct2, THEN conjunct2, rule_format, OF pre]
  have "\<forall>u. Inr () = Inr u \<longrightarrow>
               fst (processFolder [''batch''] ''app'' 0 ?w) \<noteq> Kept
             \<and> (\<exists>es2. trace (snd (processFolder [''batch''] ''app'' 0 ?w))
                       = trace (snd ?g) @ Sleep 1000
                           # Rename ?src (gateDest [''batch''] ''app'' (snd ?g)) # es2
                   \<and> set es2 \<subseteq> {Rename ?src (gateDest [''batch''] ''app'' (snd ?g)),
                                  Sleep 3000, Exec Taskkill})
             \<and> ((\<exists>n<maxMoveAttempts. (\<forall>k<n. lock_failure (rename_script (snd ?g) k))
                      \<and> rename_script (snd ?g) n = None) \<longrightarrow>
                   fst (processFolder [''batch''] ''app'' 0 ?w)
                     = Relocated (gateDest [''batch''] ''app'' (snd ?g))
                 \<and> tree (snd ?g) ?src \<noteq> None
                 \<and> tree (snd (processFolder [''batch''] ''app'' 0 ?w)) ?src = None
                 \<and> tree (snd (processFolder [''batch''] ''app'' 0 ?w))
                      (gateDest [''batch''] ''app'' (snd ?g))
                     = tree (snd ?g) ?src)"
    by blast
  with ex have "fst (processFolder [''batch''] ''app'' 0 ?w)
                     = Relocated (gateDest [''batch''] ''app'' (snd ?g))
                 \<and> tree (snd (processFolder [''batch''] ''app'' 0 ?w)) ?src = None"
    by blast
  with skips show ?thesis
    unfolding r(2) by simp
qed

text \<open>
  Claim C5 as stated fails here: the status file of \<open>app\<close> has all three flags true,
  \<^verbatim>\<open>.git\<close> and \<^verbatim>\<open>.gitignore\<close> are in place, and still the pass runs \<^verbatim>\<open>git add .\<close> and
  \<^verbatim>\<open>git commit\<close> before it moves the folder.
\<close>

theorem complete_folder_still_commits:
  "fst (loadStatus (app_world (Stored allDone)) [''batch'', ''app'']) = Some allDone
   \<and> github allDone \<and> vercel allDone \<and> netlify allDone
   \<and> trace (app_world (Stored allDone)) = []
   \<and> trace (snd (processFolder [''batch''] ''app'' 0 (app_world (Stored allDone))))
       = [Exec GitAdd, Exec GitCommit, Sleep 1000,
          Rename [''batch'', ''app''] [''batch'', ''upload done'', ''app'']]"
proof -
  have b: "baseName ''app'' 0 = ''app''"
    by (simp add: baseName_def cleanName_def toLowerCase_def is_space_def is_name_char_def
        trim_dashes_def)
  show ?thesis
    by (simp add: b run_simps)
qed

section \<open>Flags only go from false to true\<close>

lemma flags_le_refl [simp]: "flags_le a a"
  by (simp add: flags_le_def)

lemma flags_le_trans: "flags_le a b \<Longrightarrow> flags_le b c \<Longrightarrow> flags_le a c"
  by (simp add: flags_le_def)

lemma flags_le_set:
  "flags_le a st \<Longrightarrow> flags_le a (st\<lparr>github := True, repoName := n\<rparr>)"
  "flags_le a st \<Longrightarrow> flags_le a (st\<lparr>vercel := True\<rparr>)"
  "flags_le a st \<Longrightarrow> flags_le a (st\<lparr>netlify := True\<rparr>)"
  by (simp_all add: flags_le_def)

lemma saves_at_least_simps [simp]:
  "saves_at_least a []"
  "saves_at_least a (es @ es') = (saves_at_least a es \<and> saves_at_least a es')"
  "saves_at_least a (e # e' # es) = (saves_at_least a [e] \<and> saves_at_least a (e' # es))"
  "saves_at_least a [WriteStatus p st] = flags_le a st"
  "saves_at_least a [Exec c] = True"
  "saves_at_least a [Rename src dest] = True"
  "saves_at_least a [Sleep ms] = True"
  "saves_at_least a [WriteGitignore p] = True"
  by (simp_all add: saves_at_least_def)

lemma saves_at_least_other:
  "\<forall>e\<in>set es. \<forall>p st. e \<noteq> WriteStatus p st \<Longrightarrow> saves_at_least a es"
  by (auto simp: saves_at_least_def list_all_iff split: event.splits)

subsection \<open>What each step writes and returns\<close>

lemma writeStatus_frame:
  "trace (snd (writeStatus p st w)) = trace w @ [WriteStatus p st]"
  "read_script (snd (writeStatus p st w)) = read_script w"
  "write_script (snd (writeStatus p st w)) = (\<lambda>k. write_script w (Suc k))"
  by (auto simp: writeStatus_def Let_def split: option.splits write_outcome.splits)

lemma createGitHubRepo_frame:
  "tree (snd (createGitHubRepo name w)) = tree w"
  "read_script (snd (createGitHubRepo name w)) = read_script w"
  "write_script (snd (createGitHubRepo name w)) = write_script w"
  "\<exists>es. trace (snd (createGitHubRepo name w)) = trace w @ es \<and> saves_at_least a es"
proof -
  have c: "candidate name name"
    by (simp add: candidate_def)
  from createLoop_events [OF c, of 0 w]
  obtain es where es: "trace (snd (createLoop name name 0 w)) = trace w @ es"
    "list_all (\<lambda>e. is_create e \<and> candidate name (created_name e)) es"
    "tree (snd (createLoop name name 0 w)) = tree w"
    by blast
  show "tree (snd (createGitHubRepo name w)) = tree w"
    unfolding createGitHubRepo_def by (rule es(3))
  show "read_script (snd (createGitHubRepo name w)) = read_script w"
    "write_script (snd (createGitHubRepo name w)) = write_script w"
    unfolding createGitHubRepo_def using createLoop_files [of name name 0 w] by simp_all
  have "\<forall>e\<in>set es. \<forall>p st. e \<noteq> WriteStatus p st"
    using es(2) by (auto simp: list_all_iff)
  then have "saves_at_least a es"
    by (rule saves_at_least_other)
  with es(1) show "\<exists>es. trace (snd (createGitHubRepo name w)) = trace w @ es \<and> saves_at_least a es"
    unfolding createGitHubRepo_def by blast
qed

lemma githubStage_keeps:
  assumes "flags_le a st"
  shows "(\<exists>es. trace (snd (githubStage base p st w)) = trace w @ es \<and> saves_at_least a es)
       \<and> (\<forall>st'. fst (githubStage base p st w) = Inr st' \<longrightarrow> flags_le a st')"
proof (cases "github st")
  case True
  then show ?thesis
    using assms by (simp add: githubStage_def)
next
  case False
  obtain name w1 where cr: "createGitHubRepo (nameOr st base) w = (name, w1)"
    by (cases "createGitHubRepo (nameOr st base) w")
  from createGitHubRepo_frame(4) [of "nameOr st base" w a]
  obtain es where es: "trace w1 = trace w @ es" "saves_at_least a es"
    unfolding cr snd_conv by blast
  let ?st = "st\<lparr>github := True, repoName := Some name\<rparr>"
  have le: "flags_le a ?st"
    by (rule flags_le_set(1) [OF assms])
  obtain ok w2 where wr: "writeStatus p ?st w1 = (ok, w2)"
    by (cases "writeStatus p ?st w1")
  then have t2: "trace w2 = trace w @ es @ [WriteStatus p ?st]"
    using writeStatus_frame(1) [of p ?st w1] es(1) by simp
  have s2: "saves_at_least a (es @ [WriteStatus p ?st])"
    using es(2) le by simp
  show ?thesis
  proof (cases "name = []")
    case True
    then show ?thesis
      using False cr es assms by (auto simp: githubStage_def)
  next
    case False
    have "githubStage base p st w = (if ok then Inr ?st else Inl WriteFailed, w2)"
      using \<open>\<not> github st\<close> False cr wr by (cases ok) (simp_all add: githubStage_def)
    then show ?thesis
      using t2 s2 le by auto
  qed
qed

lemma vercelStage_keeps:
  assumes "flags_le a st"
  shows "(\<exists>es. trace (snd (vercelStage base p st w)) = trace w @ es \<and> saves_at_least a es)
       \<and> flags_le a (fst (vercelStage base p st w))"
proof (cases "vercel st")
  case True
  then show ?thesis
    using assms by (simp add: vercelStage_def)
next
  case False
  let ?w0 = "snd (execSync (VercelProjectAdd (nameOr st base)) w)"
  obtain x w1 where ex: "execSync VercelDeploy ?w0 = (x, w1)"
    by (cases "execSync VercelDeploy ?w0")
  then have t1: "trace w1 = trace w @ [Exec (VercelProjectAdd (nameOr st base)), Exec VercelDeploy]"
    using execSync_frame(3) [of VercelDeploy ?w0] by simp
  let ?st = "st\<lparr>vercel := True\<rparr>"
  have le: "flags_le a ?st"
    by (rule flags_le_set(2) [OF assms])
  show ?thesis
  proof (cases x)
    case (Returned out)
    then have v: "vercelStage base p st w = (?st, snd (writeStatus p ?st w1))"
      using False ex by (simp add: vercelStage_def)
    have "trace (snd (writeStatus p ?st w1))
        = trace w @ [Exec (VercelProjectAdd (nameOr st base)), Exec VercelDeploy, WriteStatus p ?st]"
      using writeStatus_frame(1) [of p ?st w1] t1 by simp
    moreover have "saves_at_least a
        [Exec (VercelProjectAdd (nameOr st base)), Exec VercelDeploy, WriteStatus p ?st]"
      using le by simp
    ultimately show ?thesis
      unfolding v using le by auto
  next
    case (Threw err)
    then have v: "vercelStage base p st w = (st, w1)"
      using False ex by (simp add: vercelStage_def)
    have "saves_at_least a [Exec (VercelProjectAdd (nameOr st base)), Exec VercelDeploy]"
      by simp
    with t1 show ?thesis
      unfolding v using assms by auto
  qed
qed

lemma netlifyLinkSite_frame:
  "tree (netlifyLinkSite base p st w) = tree w"
  "read_script (netlifyLinkSite base p st w) = read_script w"
  "write_script (netlifyLinkSite base p st w) = write_script w"
  "\<exists>es. trace (netlifyLinkSite base p st w) = trace w @ es \<and> saves_at_least a es"
proof -
  show "tree (netlifyLinkSite base p st w) = tree w"
    by (simp add: netlifyLinkSite_def split: prod.splits exec_result.splits option.splits)
       (auto simp: execSync_def randomSuffix_def)
  show "read_script (netlifyLinkSite base p st w) = read_script w"
    by (simp add: netlifyLinkSite_def split: prod.splits exec_result.splits option.splits)
       (auto simp: execSync_def randomSuffix_def)
  show "write_script (netlifyLinkSite base p st w) = write_script w"
    by (simp add: netlifyLinkSite_def split: prod.splits exec_result.splits option.splits)
       (auto simp: execSync_def randomSuffix_def)
  show "\<exists>es. trace (netlifyLinkSite base p st w) = trace w @ es \<and> saves_at_least a es"
  proof (cases "existsNetlify w p")
    case True
    then show ?thesis
      by (simp add: netlifyLinkSite_def)
  next
    case False
    obtain r w1 where rs: "randomSuffix w = (r, w1)"
      by (cases "randomSuffix w")
    then have t1: "trace w1 = trace w"
      using randomSuffix_frame [of w] by (simp add: randomSuffix_def)
    let ?c = "NetlifySitesCreate (nameOr st base @ ''-'' @ decimal r)"
    obtain x w2 where ex: "execSync ?c w1 = (x, w2)"
      by (cases "execSync ?c w1")
    then have t2: "trace w2 = trace w @ [Exec ?c]"
      using execSync_frame(3) [of ?c w1] t1 by simp
    show ?thesis
    proof (cases x)
      case (Threw err)
      then have "netlifyLinkSite base p st w = w2"
        using False rs ex by (simp add: netlifyLinkSite_def)
      with t2 show ?thesis
        by (intro exI [of _ "[Exec ?c]"]) simp
    next
      case (Returned jsonOut)
      show ?thesis
      proof (cases "json_site_id w2 jsonOut")
        case None
        then have "netlifyLinkSite base p st w = w2"
          using False rs ex Returned by (simp add: netlifyLinkSite_def)
        with t2 show ?thesis
          by (intro exI [of _ "[Exec ?c]"]) simp
      next
        case (Some siteId)
        then have "netlifyLinkSite base p st w = snd (execSync (NetlifyLink siteId) w2)"
          using False rs ex Returned by (simp add: netlifyLinkSite_def)
        then have "trace (netlifyLinkSite base p st w) = trace w @ [Exec ?c, Exec (NetlifyLink siteId)]"
          using t2 by simp
        then show ?thesis
          by (intro exI [of _ "[Exec ?c, Exec (NetlifyLink siteId)]"]) simp
      qed
    qed
  qed
qed

lemma netlifyStage_keeps:
  assumes "flags_le a st"
  shows "(\<exists>es. trace (snd (netlifyStage base p st w)) = trace w @ es \<and> saves_at_least a es)
       \<and> flags_le a (fst (netlifyStage base p st w))"
proof (cases "netlify st")
  case True
  then show ?thesis
    using assms by (simp add: netlifyStage_def)
next
  case False
  let ?w0 = "netlifyLinkSite base p st w"
  from netlifyLinkSite_frame(4) [of base p st w a]
  obtain es where es: "trace ?w0 = trace w @ es" "saves_at_least a es"
    by blast
  obtain x w1 where ex: "execSync NetlifyDeploy ?w0 = (x, w1)"
    by (cases "execSync NetlifyDeploy ?w0")
  then have t1: "trace w1 = trace w @ es @ [Exec NetlifyDeploy]"
    using execSync_frame(3) [of NetlifyDeploy ?w0] es(1) by simp
  let ?st = "st\<lparr>netlify := True\<rparr>"
  have le: "flags_le a ?st"
    by (rule flags_le_set(3) [OF assms])
  show ?thesis
  proof (cases x)
    case (Returned out)
    then have v: "netlifyStage base p st w = (?st, snd (writeStatus p ?st w1))"
      using False ex by (simp add: netlifyStage_def)
    have "trace (snd (writeStatus p ?st w1))
        = trace w @ es @ [Exec NetlifyDeploy, WriteStatus p ?st]"
      using writeStatus_frame(1) [of p ?st w1] t1 by simp
    moreover have "saves_at_least a (es @ [Exec NetlifyDeploy, WriteStatus p ?st])"
      using le es(2) by simp
    ultimately show ?thesis
      unfolding v using le by auto
  next
    case (Threw err)
    then have v: "netlifyStage base p st w = (st, w1)"
      using False ex by (simp add: netlifyStage_def)
    have "saves_at_least a (es @ [Exec NetlifyDeploy])"
      using es(2) by simp
    with t1 show ?thesis
      unfolding v using assms by auto
  qed
qed

text \<open>Lines 431--489 in memory and in what they write: the status object the stages
  end with, and every status object they write on the way, has every flag set that the
  status object they started from had.\<close>

lemma runStages_keeps:
  assumes "flags_le a st"
  shows "(\<exists>es. trace (snd (runStages base p st w)) = trace w @ es \<and> saves_at_least a es)
       \<and> (\<forall>st'. fst (runStages base p st w) = Inr st' \<longrightarrow> flags_le a st')"
proof (cases "tree w p")
  case None
  then show ?thesis
    by (simp add: runStages_def chdir_def)
next
  case (Some node)
  let ?w0 = "w\<lparr>cwd := p\<rparr>"
  have cd: "chdir p w = (Inr (), ?w0)"
    using Some by (simp add: chdir_def)
  obtain g w2 where gp: "gitPrepare p ?w0 = (g, w2)"
    by (cases "gitPrepare p ?w0")
  from gitPrepare_effect [of p ?w0 p]
  obtain es0 where e0: "trace w2 = trace w @ es0"
    "set es0 \<subseteq> {Exec GitInit, WriteGitignore p, Exec GitAdd, Exec GitCommit}"
    unfolding gp snd_conv by auto
  have "\<forall>e\<in>set es0. \<forall>q s. e \<noteq> WriteStatus q s"
    using e0(2) by auto
  then have s0: "saves_at_least a es0"
    by (rule saves_at_least_other)
  show ?thesis
  proof (cases g)
    case (Inl e)
    then have "runStages base p st w = (Inl e, w2)"
      by (simp add: runStages_def cd gp)
    then show ?thesis
      using e0(1) s0 by auto
  next
    case (Inr u)
    obtain h w3 where gh: "githubStage base p st w2 = (h, w3)"
      by (cases "githubStage base p st w2")
    from githubStage_keeps [OF assms, of base p w2]
    obtain es1 where e1: "trace w3 = trace w2 @ es1" "saves_at_least a es1"
      and s1: "\<forall>st'. h = Inr st' \<longrightarrow> flags_le a st'"
      unfolding gh fst_conv snd_conv by blast
    show ?thesis
    proof (cases h)
      case (Inl e)
      then have "runStages base p st w = (Inl e, w3)"
        using \<open>g = Inr u\<close> by (simp add: runStages_def cd gp gh)
      moreover have "trace w3 = trace w @ (es0 @ es1)" "saves_at_least a (es0 @ es1)"
        using e0(1) e1 s0 by simp_all
      ultimately show ?thesis
        by (metis fst_conv snd_conv sum.distinct(1))
    next
      case (Inr st1)
      with s1 have l1: "flags_le a st1" by blast
      obtain st2 w4 where vs: "vercelStage base p st1 w3 = (st2, w4)"
        by (cases "vercelStage base p st1 w3")
      from vercelStage_keeps [OF l1, of base p w3]
      obtain es2 where e2: "trace w4 = trace w3 @ es2" "saves_at_least a es2"
        and l2: "flags_le a st2"
        unfolding vs fst_conv snd_conv by blast
      obtain st3 w5 where ns: "netlifyStage base p st2 w4 = (st3, w5)"
        by (cases "netlifyStage base p st2 w4")
      from netlifyStage_keeps [OF l2, of base p w4]
      obtain es3 where e3: "trace w5 = trace w4 @ es3" "saves_at_least a es3"
        and l3: "flags_le a st3"
        unfolding ns fst_conv snd_conv by blast
      have "runStages base p st w = (Inr st3, w5)"
        using \<open>g = Inr u\<close> Inr by (simp add: runStages_def cd gp gh vs ns)
      moreover have "trace w5 = trace w @ (es0 @ es1 @ es2 @ es3)"
        "saves_at_least a (es0 @ es1 @ es2 @ es3)"
        using e0(1) e1 e2 e3 s0 by simp_all
      ultimately show ?thesis
        using l3 by (metis fst_conv snd_conv sum.inject(2))
    qed
  qed
qed

lemma moveToDone_keeps:
  "\<exists>es. trace (snd (moveToDone root folder src st w)) = trace w @ es \<and> saves_at_least a es"
proof (cases "github st \<and> vercel st \<and> netlify st")
  case False
  have "moveToDone root folder src st w = (Inr Kept, w)"
    unfolding moveToDone_def by (rule if_not_P) (rule False)
  then show ?thesis
    by simp
next
  case True
  from moveToDone_first_rename [OF True, of root folder src w]
  obtain es where es: "trace (snd (moveToDone root folder src st w))
          = trace w @ Sleep 1000 # Rename src (gateDest root folder w) # es"
      "set es \<subseteq> {Rename src (gateDest root folder w), Sleep 3000, Exec Taskkill}"
    by blast
  have "\<forall>e\<in>set (Sleep 1000 # Rename src (gateDest root folder w) # es). \<forall>q s. e \<noteq> WriteStatus q s"
    using es(2) by auto
  then have "saves_at_least a (Sleep 1000 # Rename src (gateDest root folder w) # es)"
    by (rule saves_at_least_other)
  with es(1) show ?thesis
    by blast
qed

lemma moveToDone_files:
  "read_script (snd (moveToDone root folder src st w)) = read_script w"
  "write_script (snd (moveToDone root folder src st w)) = write_script w"
proof -
  have "read_script (snd (moveToDone root folder src st w)) = read_script w
      \<and> write_script (snd (moveToDone root folder src st w)) = write_script w"
  proof (cases "github st \<and> vercel st \<and> netlify st")
    case False
    have "moveToDone root folder src st w = (Inr Kept, w)"
      unfolding moveToDone_def by (rule if_not_P) (rule False)
    then show ?thesis
      by simp
  next
    case True
    let ?w0 = "sleepSync 1000 (chdir_root root w)"
    obtain d w1 where fd: "finalDest root folder ?w0 = (d, w1)"
      by (cases "finalDest root folder ?w0")
    then have w1: "read_script w1 = read_script w" "write_script w1 = write_script w"
      using files_frame(11,12) [of root folder ?w0] by simp_all
    obtain res w2 where mv: "moveFolderWithRetry root src d w1 = (res, w2)"
      by (cases "moveFolderWithRetry root src d w1")
    then have w2: "read_script w2 = read_script w" "write_script w2 = write_script w"
      using moveLoop_files [of src d 0 "chdir_root root w1"] w1
      by (simp_all add: moveFolderWithRetry_def)
    have "snd (moveToDone root folder src st w) = w2"
      using True fd mv by (simp add: moveToDone_def split: sum.splits move_outcome.splits)
    with w2 show ?thesis
      by simp
  qed
  then show "read_script (snd (moveToDone root folder src st w)) = read_script w"
    "write_script (snd (moveToDone root folder src st w)) = write_script w"
    by simp_all
qed

text \<open>One pass: every status object written is at least the one that was loaded.\<close>

lemma processFolder_keeps:
  assumes "loadStatus w (root @ [folder]) = (Some st0, w0)"
  shows "\<exists>es. trace (snd (processFolder root folder index w)) = trace w @ es
            \<and> saves_at_least st0 es"
proof -
  let ?src = "root @ [folder]"
  have t0: "trace w0 = trace w"
    using loadStatus_frame(2) [of w ?src] assms by simp
  obtain x w1 where rs: "runStages (baseName folder index) ?src st0 w0 = (x, w1)"
    by (cases "runStages (baseName folder index) ?src st0 w0")
  from runStages_keeps [of st0 st0 "baseName folder index" ?src w0]
  obtain es1 where e1: "trace w1 = trace w @ es1" "saves_at_least st0 es1"
    unfolding rs snd_conv using t0 by auto
  show ?thesis
  proof (cases x)
    case (Inl e)
    then have "processFolder root folder index w = (Errored e, chdir_root root w1)"
      by (simp add: processFolder_def assms rs)
    then show ?thesis
      using e1 by auto
  next
    case (Inr st)
    obtain y w2 where m: "moveToDone root folder ?src st w1 = (y, w2)"
      by (cases "moveToDone root folder ?src st w1")
    from moveToDone_keeps [of root folder ?src st w1 st0]
    obtain es2 where e2: "trace w2 = trace w1 @ es2" "saves_at_least st0 es2"
      unfolding m snd_conv by blast
    have "trace (snd (processFolder root folder index w)) = trace w2"
      by (simp add: processFolder_def assms rs Inr m split: sum.splits)
    moreover have "trace w2 = trace w @ (es1 @ es2)" "saves_at_least st0 (es1 @ es2)"
      using e1 e2 by simp_all
    ultimately show ?thesis
      by metis
  qed
qed

subsection \<open>What the file holds when no read throws and no write is cut off\<close>

lemma writeStatus_mono:
  assumes "flags_le a st" "flags_le a (stored w p)" "reliable w"
  shows "flags_le a (stored (snd (writeStatus p st w)) p) \<and> reliable (snd (writeStatus p st w))"
proof -
  have nt: "write_script w 0 \<noteq> ThrewTruncated"
    using assms(3) by (simp add: reliable_def)
  have "stored (snd (writeStatus p st w)) p = st \<or> stored (snd (writeStatus p st w)) p = stored w p"
    using nt
    by (auto simp: writeStatus_def stored_def Let_def split: option.splits write_outcome.splits)
  then have "flags_le a (stored (snd (writeStatus p st w)) p)"
    using assms(1,2) by auto
  moreover have "reliable (snd (writeStatus p st w))"
    using reliable_after_write [OF writeStatus_frame(2,3) assms(3)] .
  ultimately show ?thesis ..
qed

lemma githubStage_mono:
  assumes "flags_le a st" "flags_le a (stored w p)" "reliable w"
  shows "flags_le a (stored (snd (githubStage base p st w)) p)
       \<and> reliable (snd (githubStage base p st w))"
proof (cases "github st")
  case True
  then show ?thesis
    using assms by (simp add: githubStage_def)
next
  case False
  obtain name w1 where cr: "createGitHubRepo (nameOr st base) w = (name, w1)"
    by (cases "createGitHubRepo (nameOr st base) w")
  then have "tree w1 = tree w" "read_script w1 = read_script w" "write_script w1 = write_script w"
    using createGitHubRepo_frame(1,2,3) [of "nameOr st base" w] by simp_all
  then have l1: "flags_le a (stored w1 p)" and r1: "reliable w1"
    using assms(2,3) stored_tree [of w1 w p] reliable_cong [of w1 w] by simp_all
  let ?st = "st\<lparr>github := True, repoName := Some name\<rparr>"
  obtain ok w2 where wr: "writeStatus p ?st w1 = (ok, w2)"
    by (cases "writeStatus p ?st w1")
  have l2: "flags_le a (stored w2 p) \<and> reliable w2"
    using writeStatus_mono [OF flags_le_set(1) [OF assms(1)] l1 r1, of "Some name"] wr by simp
  show ?thesis
    using False cr wr l1 r1 l2
    by (cases ok) (simp_all add: githubStage_def)
qed

lemma vercelStage_mono:
  assumes "flags_le a st" "flags_le a (stored w p)" "reliable w"
  shows "flags_le a (stored (snd (vercelStage base p st w)) p)
       \<and> reliable (snd (vercelStage base p st w))"
proof (cases "vercel st")
  case True
  then show ?thesis
    using assms by (simp add: vercelStage_def)
next
  case False
  let ?w0 = "snd (execSync (VercelProjectAdd (nameOr st base)) w)"
  obtain x w1 where ex: "execSync VercelDeploy ?w0 = (x, w1)"
    by (cases "execSync VercelDeploy ?w0")
  then have "tree w1 = tree w" "read_script w1 = read_script w" "write_script w1 = write_script w"
    using execSync_frame(1) [of VercelDeploy ?w0] files_frame(1,2) [of VercelDeploy ?w0]
    by simp_all
  then have l1: "flags_le a (stored w1 p)" and r1: "reliable w1"
    using assms(2,3) stored_tree [of w1 w p] reliable_cong [of w1 w] by simp_all
  show ?thesis
  proof (cases x)
    case (Returned out)
    then show ?thesis
      using False ex writeStatus_mono [OF flags_le_set(2) [OF assms(1)] l1 r1]
      by (simp add: vercelStage_def)
  next
    case (Threw err)
    then show ?thesis
      using False ex l1 r1 by (simp add: vercelStage_def)
  qed
qed

lemma netlifyStage_mono:
  assumes "flags_le a st" "flags_le a (stored w p)" "reliable w"
  shows "flags_le a (stored (snd (netlifyStage base p st w)) p)
       \<and> reliable (snd (netlifyStage base p st w))"
proof (cases "netlify st")
  case True
  then show ?thesis
    using assms by (simp add: netlifyStage_def)
next
  case False
  let ?w0 = "netlifyLinkSite base p st w"
  obtain x w1 where ex: "execSync NetlifyDeploy ?w0 = (x, w1)"
    by (cases "execSync NetlifyDeploy ?w0")
  then have "tree w1 = tree w" "read_script w1 = read_script w" "write_script w1 = write_script w"
    using execSync_frame(1) [of NetlifyDeploy ?w0] files_frame(1,2) [of NetlifyDeploy ?w0]
      netlifyLinkSite_frame(1,2,3) [of base p st w]
    by simp_all
  then have l1: "flags_le a (stored w1 p)" and r1: "reliable w1"
    using assms(2,3) stored_tree [of w1 w p] reliable_cong [of w1 w] by simp_all
  show ?thesis
  proof (cases x)
    case (Returned out)
    then show ?thesis
      using False ex writeStatus_mono [OF flags_le_set(3) [OF assms(1)] l1 r1]
      by (simp add: netlifyStage_def)
  next
    case (Threw err)
    then show ?thesis
      using False ex l1 r1 by (simp add: netlifyStage_def)
  qed
qed

lemma runStages_mono:
  assumes "flags_le a st" "flags_le a (stored w p)" "reliable w"
  shows "flags_le a (stored (snd (runStages base p st w)) p)
       \<and> reliable (snd (runStages base p st w))"
proof (cases "tree w p")
  case None
  then show ?thesis
    using assms(2,3) by (simp add: runStages_def chdir_def)
next
  case (Some node)
  let ?w0 = "w\<lparr>cwd := p\<rparr>"
  have cd: "chdir p w = (Inr (), ?w0)"
    using Some by (simp add: chdir_def)
  have l0: "flags_le a (stored ?w0 p)" and r0: "reliable ?w0"
    using assms(2,3) by (simp_all add: stored_def reliable_def)
  obtain g w2 where gp: "gitPrepare p ?w0 = (g, w2)"
    by (cases "gitPrepare p ?w0")
  have l2: "flags_le a (stored w2 p)" and r2: "reliable w2"
    using gitPrepare_effect [of p ?w0 p] l0 r0 unfolding gp by auto
  show ?thesis
  proof (cases g)
    case (Inl e)
    then show ?thesis
      using l2 r2 by (simp add: runStages_def cd gp)
  next
    case (Inr u)
    obtain h w3 where gh: "githubStage base p st w2 = (h, w3)"
      by (cases "githubStage base p st w2")
    from githubStage_mono [OF assms(1) l2 r2, of base]
    have l3: "flags_le a (stored w3 p)" and r3: "reliable w3"
      unfolding gh by simp_all
    from githubStage_keeps [OF assms(1), of base p w2]
    have s3: "\<forall>st'. h = Inr st' \<longrightarrow> flags_le a st'"
      unfolding gh by simp
    show ?thesis
    proof (cases h)
      case (Inl e)
      then show ?thesis
        using l3 r3 \<open>g = Inr u\<close> by (simp add: runStages_def cd gp gh)
    next
      case (Inr st1)
      with s3 have s1: "flags_le a st1" by blast
      obtain st2 w4 where vs: "vercelStage base p st1 w3 = (st2, w4)"
        by (cases "vercelStage base p st1 w3")
      from vercelStage_mono [OF s1 l3 r3, of base]
      have l4: "flags_le a (stored w4 p)" and r4: "reliable w4"
        unfolding vs by simp_all
      from vercelStage_keeps [OF s1, of base p w3]
      have s2: "flags_le a st2"
        unfolding vs by simp
      obtain st3 w5 where ns: "netlifyStage base p st2 w4 = (st3, w5)"
        by (cases "netlifyStage base p st2 w4")
      from netlifyStage_mono [OF s2 l4 r4, of base]
      have l5: "flags_le a (stored w5 p)" and r5: "reliable w5"
        unfolding ns by simp_all
      show ?thesis
        using l5 r5 \<open>g = Inr u\<close> Inr by (simp add: runStages_def cd gp gh vs ns)
    qed
  qed
qed

text \<open>Where the folder lies after a pass.\<close>

lemma processFolder_mono:
  assumes "reliable w"
  shows "flags_le (stored w (root @ [folder]))
     (stored (snd (processFolder root folder index w))
        (case fst (processFolder root folder index w) of
           Relocated d \<Rightarrow> d | MoveFailed \<Rightarrow> root @ [folder] | Kept \<Rightarrow> root @ [folder]
         | Errored e \<Rightarrow> root @ [folder] | Crashed \<Rightarrow> root @ [folder]))
     \<and> reliable (snd (processFolder root folder index w))"
proof -
  let ?src = "root @ [folder]"
  let ?pf = "processFolder root folder index w"
  obtain l w0 where ld: "loadStatus w ?src = (l, w0)"
    by (cases "loadStatus w ?src")
  have r0: "reliable w0"
    using loadStatus_reliable [OF assms, of ?src] ld by simp
  have t0: "stored w0 ?src = stored w ?src"
    using loadStatus_frame(1) [of w ?src] ld stored_tree [of w0 w ?src] by simp
  have nr: "\<not> read_script w 0"
    using assms by (simp add: reliable_def)
  show ?thesis
  proof (cases l)
    case None
    then have "?pf = (Crashed, w0)"
      by (simp add: processFolder_def ld)
    then show ?thesis
      using r0 t0 by simp
  next
    case (Some a)
    have a: "a = stored w ?src"
      using loadStatus_reads_stored [OF nr, of ?src] ld Some by (simp add: flags_of_def)
    have la: "flags_le a (stored w0 ?src)"
      using a t0 by simp
    obtain x w1 where rs: "runStages (baseName folder index) ?src a w0 = (x, w1)"
      by (cases "runStages (baseName folder index) ?src a w0")
    from runStages_mono [OF flags_le_refl la r0, of "baseName folder index"]
    have l1: "flags_le a (stored w1 ?src)" and r1: "reliable w1"
      unfolding rs by simp_all
    show ?thesis
    proof (cases x)
      case (Inl e)
      then have "?pf = (Errored e, chdir_root root w1)"
        by (simp add: processFolder_def ld Some rs)
      moreover have "stored (chdir_root root w1) ?src = stored w1 ?src"
        by (rule stored_tree) simp
      moreover have "reliable (chdir_root root w1)"
        using r1 reliable_cong [of "chdir_root root w1" w1] by simp
      ultimately show ?thesis
        using l1 a by simp
    next
      case (Inr st)
      obtain y w2 where m: "moveToDone root folder ?src st w1 = (y, w2)"
        by (cases "moveToDone root folder ?src st w1")
      have pf: "?pf = (case y of Inl fatalErr \<Rightarrow> (Errored fatalErr, chdir_root root w2)
                              | Inr outcome \<Rightarrow> (outcome, w2))"
        by (simp add: processFolder_def ld Some rs Inr m)
      have r2: "reliable w2"
        using moveToDone_files [of root folder ?src st w1] r1 reliable_cong [of w2 w1]
        unfolding m by simp
      have r2': "reliable (chdir_root root w2)"
        using r2 reliable_cong [of "chdir_root root w2" w2] by simp
      have rel: "reliable (snd ?pf)"
        unfolding pf using r2 r2' by (simp split: sum.splits)
      have mono: "flags_le a (stored (snd ?pf)
        (case fst ?pf of
           Relocated d \<Rightarrow> d | MoveFailed \<Rightarrow> ?src | Kept \<Rightarrow> ?src
         | Errored e \<Rightarrow> ?src | Crashed \<Rightarrow> ?src))"
      proof (cases "github st \<and> vercel st \<and> netlify st")
        case False
        have "moveToDone root folder ?src st w1 = (Inr Kept, w1)"
          unfolding moveToDone_def by (rule if_not_P) (rule False)
        with m have "y = Inr Kept" "w2 = w1" by simp_all
        with pf have "?pf = (Kept, w1)" by simp
        then show ?thesis
          using l1 by simp
      next
        case True
        let ?d = "gateDest root folder w1"
        from moveToDone_effect [OF True, of root folder ?src w1]
        have dest: "\<forall>d. y = Inr (Relocated d) \<longrightarrow> d = ?d"
          and tr: "if y = Inr (Relocated ?d)
             then \<exists>node. tree w1 ?src = Some node \<and> tree w2 = (tree w1)(?src := None, ?d \<mapsto> node)
             else tree w2 = tree w1"
          unfolding m fst_conv snd_conv by blast+
        show ?thesis
        proof (cases "y = Inr (Relocated ?d)")
          case True
          with tr obtain node where "tree w1 ?src = Some node"
            "tree w2 = (tree w1)(?src := None, ?d \<mapsto> node)"
            by auto
          then have "stored w2 ?d = stored w1 ?src"
            by (simp add: stored_def)
          then show ?thesis
            unfolding pf using True l1 by simp
        next
          case False
          with tr have t: "tree w2 = tree w1" by simp
          have l2: "stored w2 ?src = stored w1 ?src"
            "stored (chdir_root root w2) ?src = stored w1 ?src"
            using t by (simp_all add: stored_def)
          have nrl: "y \<noteq> Inr (Relocated d)" for d
            using dest False by blast
          show ?thesis
          proof (cases y)
            case (Inl e)
            then show ?thesis
              unfolding pf using l1 l2 by simp
          next
            case (Inr oc)
            then show ?thesis
              unfolding pf using l1 l2 nrl by (cases oc) simp_all
          qed
        qed
      qed
      show ?thesis
        using mono rel a by simp
    qed
  qed
qed

lemma rerun_elsewhere:
  "loc \<noteq> root @ [folder] \<Longrightarrow> rerun root folder index n (loc, w) = (loc, w)"
  by (cases n) simp_all

lemma rerun_step:
  "rerun root folder index (Suc n) (root @ [folder], w) =
     rerun root folder index n
       (case fst (processFolder root folder index w) of
          Relocated d \<Rightarrow> d | MoveFailed \<Rightarrow> root @ [folder] | Kept \<Rightarrow> root @ [folder]
        | Errored e \<Rightarrow> root @ [folder] | Crashed \<Rightarrow> root @ [folder],
        snd (processFolder root folder index w))"
  by (cases "processFolder root folder index w")
     (simp split: pass_outcome.splits)

lemma rerun_mono:
  "reliable (snd s) \<Longrightarrow>
   flags_le (stored (snd s) (fst s))
      (stored (snd (rerun root folder index n s)) (fst (rerun root folder index n s)))
   \<and> reliable (snd (rerun root folder index n s))"
proof (induction n arbitrary: s)
  case 0
  then show ?case by (cases s) simp
next
  case (Suc n)
  obtain loc w where s: "s = (loc, w)" by (cases s)
  show ?case
  proof (cases "loc = root @ [folder]")
    case False
    then show ?thesis
      using Suc.prems unfolding s by (simp add: rerun_elsewhere)
  next
    case True
    let ?s' = "(case fst (processFolder root folder index w) of
          Relocated d \<Rightarrow> d | MoveFailed \<Rightarrow> root @ [folder] | Kept \<Rightarrow> root @ [folder]
        | Errored e \<Rightarrow> root @ [folder] | Crashed \<Rightarrow> root @ [folder],
        snd (processFolder root folder index w))"
    have rw: "reliable w"
      using Suc.prems s by simp
    from processFolder_mono [OF rw, of root folder index]
    have st: "flags_le (stored w (root @ [folder])) (stored (snd ?s') (fst ?s'))"
      and r: "reliable (snd ?s')"
      by simp_all
    from Suc.IH [OF r]
    have ih: "flags_le (stored (snd ?s') (fst ?s'))
        (stored (snd (rerun root folder index n ?s')) (fst (rerun root folder index n ?s')))"
      and r': "reliable (snd (rerun root folder index n ?s'))"
      by simp_all
    from st ih have "flags_le (stored w (root @ [folder]))
        (stored (snd (rerun root folder index n ?s')) (fst (rerun root folder index n ?s')))"
      by (rule flags_le_trans)
    with r' show ?thesis
      unfolding s True rerun_step by simp
  qed
qed

lemma rerun_add:
  "rerun root folder index (m + k) s = rerun root folder index k (rerun root folder index m s)"
proof (induction m arbitrary: s)
  case 0
  then show ?case by (cases s) simp
next
  case (Suc m)
  obtain loc w where s: "s = (loc, w)" by (cases s)
  show ?case
  proof (cases "loc = root @ [folder]")
    case False
    then show ?thesis
      unfolding s by (simp add: rerun_elsewhere)
  next
    case True
    show ?thesis
      unfolding s True add_Suc rerun_step by (rule Suc.IH)
  qed
qed

lemma observe_reliable: "reliable (snd s) \<Longrightarrow> observe s = stored (snd s) (fst s)"
  unfolding observe_def by (rule loadStatus_reads_stored) (simp add: reliable_def)

text \<open>
  Claim C3, as the script has it.  In memory and in what is written, flags only go
  from false to true: the status object the stages end with has every flag set that the
  one they started from had, and every status object a pass writes to the status file
  has every flag set that the loaded one had.  For what later loads observe this is
  enough only as long as the file system plays along.  Run the script any number of
  times, in a world where no read of a status file throws and no write the script
  makes is cut off after its file was opened, and load the folder's status file
  after \<open>m\<close> runs and again after \<open>k\<close> more: every flag that was true at the first load
  is true at the second.
\<close>

theorem stageStatus_monotone:
  "(reliable w \<longrightarrow>
      flags_le (observe (rerun root folder index m (root @ [folder], w)))
               (observe (rerun root folder index (m + k) (root @ [folder], w))))
   \<and> (\<forall>st. fst (runStages base projectPath st0 w) = Inr st \<longrightarrow> flags_le st0 st)
   \<and> (\<forall>loaded w0. loadStatus w (root @ [folder]) = (Some loaded, w0) \<longrightarrow>
         (\<exists>es. trace (snd (processFolder root folder index w)) = trace w @ es
             \<and> saves_at_least loaded es))"
proof -
  have "flags_le (observe (rerun root folder index m (root @ [folder], w)))
               (observe (rerun root folder index (m + k) (root @ [folder], w)))"
    if rel: "reliable w"
  proof -
    let ?s = "rerun root folder index m (root @ [folder], w)"
    have rs: "reliable (snd ?s)"
      using rerun_mono [of "(root @ [folder], w)" root folder index m] rel by simp
    from rerun_mono [OF rs, of root folder index k]
    have le: "flags_le (stored (snd ?s) (fst ?s))
        (stored (snd (rerun root folder index k ?s)) (fst (rerun root folder index k ?s)))"
      and rk: "reliable (snd (rerun root folder index k ?s))"
      by simp_all
    show ?thesis
      unfolding rerun_add observe_reliable [OF rs] observe_reliable [OF rk] by (rule le)
  qed
  moreover have "\<forall>st. fst (runStages base projectPath st0 w) = Inr st \<longrightarrow> flags_le st0 st"
    using runStages_keeps [of st0 st0 base projectPath w] by simp
  moreover have "\<forall>loaded w0. loadStatus w (root @ [folder]) = (Some loaded, w0) \<longrightarrow>
         (\<exists>es. trace (snd (processFolder root folder index w)) = trace w @ es
             \<and> saves_at_least loaded es)"
    using processFolder_keeps [of w root folder _ _ index] by blast
  ultimately show ?thesis by blast
qed

theorem stageStatus_monotone_witness:
  "reliable half_done_world
   \<and> github (observe (rerun [''batch''] ''app'' 0 0 ([''batch'', ''app''], half_done_world)))
   \<and> github (observe (rerun [''batch''] ''app'' 0 2 ([''batch'', ''app''], half_done_world)))
   \<and> observe (rerun [''batch''] ''app'' 0 (Suc 0) ([''batch'', ''app''], half_done_world))
       = \<lparr>github = True, vercel = False, netlify = True, repoName = Some ''app''\<rparr>
   \<and> fst (runStages ''app'' [''batch'', ''app'']
            \<lparr>github = True, vercel = False, netlify = False, repoName = Some ''app''\<rparr>
            half_done_world)
       = Inr \<lparr>github = True, vercel = False, netlify = True, repoName = Some ''app''\<rparr>
   \<and> flags_le \<lparr>github = True, vercel = False, netlify = False, repoName = Some ''app''\<rparr>
              \<lparr>github = True, vercel = False, netlify = True, repoName = Some ''app''\<rparr>
   \<and> trace (snd (processFolder [''batch''] ''app'' 0 half_done_world))
       = [Exec GitAdd, Exec GitCommit, Exec (VercelProjectAdd ''app''), Exec VercelDeploy,
          Exec NetlifyDeploy,
          WriteStatus [''batch'', ''app'']
            \<lparr>github = True, vercel = False, netlify = True, repoName = Some ''app''\<rparr>]
   \<and> saves_at_least \<lparr>github = True, vercel = False, netlify = False, repoName = Some ''app''\<rparr>
        (trace (snd (processFolder [''batch''] ''app'' 0 half_done_world)))"
proof -
  let ?hd = "\<lparr>github = True, vercel = False, netlify = False, repoName = Some ''app''\<rparr>"
  let ?src = "[''batch''] @ [''app'']"
  let ?w = half_done_world
  note T = stageStatus_monotone [where w = ?w and root = "[''batch'']" and folder = "''app''"
      and index = 0 and m = 0 and k = 2 and base = "''app''"
      and projectPath = "[''batch'', ''app'']" and ?st0.0 = ?hd]
  have b: "baseName ''app'' 0 = ''app''"
    by (simp add: baseName_def cleanName_def toLowerCase_def is_space_def is_name_char_def
        trim_dashes_def)
  have rel: "reliable ?w"
    by (simp add: reliable_def half_done_world_def app_world_def quiet_world_def)
  have g1: "observe (rerun [''batch''] ''app'' 0 (Suc 0) ([''batch'', ''app''], ?w))
       = \<lparr>github = True, vercel = False, netlify = True, repoName = Some ''app''\<rparr>"
    by (simp add: observe_def flags_of_def b run_simps half_done_world_def)
  have g0: "github (observe (rerun [''batch''] ''app'' 0 0 (?src, ?w)))"
    by (simp add: observe_def flags_of_def run_simps half_done_world_def)
  from T [THEN conjunct1, rule_format, OF rel]
  have "github (observe (rerun [''batch''] ''app'' 0 0 (?src, ?w)))
      \<longrightarrow> github (observe (rerun [''batch''] ''app'' 0 (0 + 2) (?src, ?w)))"
    unfolding flags_le_def by (rule conjunct1)
  with g0 have "github (observe (rerun [''batch''] ''app'' 0 (0 + 2) (?src, ?w)))"
    by (rule rev_mp)
  with g0 have c1: "github (observe (rerun [''batch''] ''app'' 0 0 ([''batch'', ''app''], ?w)))
   \<and> github (observe (rerun [''batch''] ''app'' 0 2 ([''batch'', ''app''], ?w)))"
    unfolding add_0 append_Cons append_Nil by (rule conjI)
  have r: "fst (runStages ''app'' [''batch'', ''app''] ?hd ?w)
       = Inr \<lparr>github = True, vercel = False, netlify = True, repoName = Some ''app''\<rparr>"
    by (simp add: run_simps half_done_world_def)
  from T [THEN conjunct2, THEN conjunct1, rule_format, OF r]
  have c2: "flags_le ?hd \<lparr>github = True, vercel = False, netlify = True, repoName = Some ''app''\<rparr>" .
  have l: "loadStatus ?w ?src = (Some ?hd, snd (loadStatus ?w ?src))"
    by (simp add: prod_eq_iff run_simps half_done_world_def)
  from T [THEN conjunct2, THEN conjunct2, rule_format, OF l]
  obtain es where es: "trace (snd (processFolder [''batch''] ''app'' 0 ?w)) = trace ?w @ es"
    "saves_at_least ?hd es"
    by blast
  have "trace ?w = []"
    by (simp add: half_done_world_def app_world_def quiet_world_def)
  with es have c3: "saves_at_least ?hd (trace (snd (processFolder [''batch''] ''app'' 0 ?w)))"
    by simp
  have tr: "trace (snd (processFolder [''batch''] ''app'' 0 ?w))
       = [Exec GitAdd, Exec GitCommit, Exec (VercelProjectAdd ''app''), Exec VercelDeploy,
          Exec NetlifyDeploy,
          WriteStatus [''batch'', ''app'']
            \<lparr>github = True, vercel = False, netlify = True, repoName = Some ''app''\<rparr>]"
    by (simp add: b run_simps half_done_world_def)
  from rel c1 g1 r c2 tr c3 show ?thesis
    by blast
qed

text \<open>
  Claim C3 as stated fails in two ways.  In the first world the status file of \<open>app\<close>
  records GitHub and Netlify as done, and a load shows both.  The first run keeps the
  folder, Vercel having failed.  In the second run the read of the status file throws,
  so the pass starts from the default object, creates the repository again and writes
  its status object over the file; both deployments fail.  From then on every read
  succeeds, and every load shows the Netlify flag false.  In the second world the one
  write of the status file, after Vercel succeeded, throws once the file has been
  opened: the folder is moved to \<^verbatim>\<open>upload done\<close> with a status file no flag can be read
  from.
\<close>

theorem failed_read_loses_flag:
  "observe (rerun [''batch''] ''app'' 0 0 ([''batch'', ''app''], flaky_read_world))
     = \<lparr>github = True, vercel = False, netlify = True, repoName = Some ''app''\<rparr>
   \<and> rerun [''batch''] ''app'' 0 (Suc 0) ([''batch'', ''app''], flaky_read_world)
     = ([''batch'', ''app''], snd (processFolder [''batch''] ''app'' 0 flaky_read_world))
   \<and> stored (snd (processFolder [''batch''] ''app'' 0 flaky_read_world)) [''batch'', ''app'']
     = \<lparr>github = True, vercel = False, netlify = True, repoName = Some ''app''\<rparr>
   \<and> fst (rerun [''batch''] ''app'' 0 2 ([''batch'', ''app''], flaky_read_world))
     = [''batch'', ''app'']
   \<and> stored (snd (rerun [''batch''] ''app'' 0 2 ([''batch'', ''app''], flaky_read_world)))
        [''batch'', ''app'']
     = \<lparr>github = True, vercel = False, netlify = False, repoName = Some ''app''\<rparr>
   \<and> reliable (snd (rerun [''batch''] ''app'' 0 2 ([''batch'', ''app''], flaky_read_world)))
   \<and> observe (rerun [''batch''] ''app'' 0 2 ([''batch'', ''app''], flaky_read_world))
     = \<lparr>github = True, vercel = False, netlify = False, repoName = Some ''app''\<rparr>
   \<and> \<not> flags_le (observe (rerun [''batch''] ''app'' 0 0 ([''batch'', ''app''], flaky_read_world)))
         (observe (rerun [''batch''] ''app'' 0 2 ([''batch'', ''app''], flaky_read_world)))
   \<and> observe (rerun [''batch''] ''app'' 0 0 ([''batch'', ''app''], cut_write_world))
     = \<lparr>github = True, vercel = False, netlify = True, repoName = Some ''app''\<rparr>
   \<and> fst (rerun [''batch''] ''app'' 0 (Suc 0) ([''batch'', ''app''], cut_write_world))
     = [''batch'', ''upload done'', ''app'']
   \<and> observe (rerun [''batch''] ''app'' 0 (Suc 0) ([''batch'', ''app''], cut_write_world))
     = defaultStatus
   \<and> reliable (snd (rerun [''batch''] ''app'' 0 (Suc 0) ([''batch'', ''app''], cut_write_world)))"
proof -
  let ?src = "[''batch'', ''app'']"
  let ?lost = "\<lparr>github = True, vercel = False, netlify = False, repoName = Some ''app''\<rparr>"
  have b: "baseName ''app'' 0 = ''app''"
    by (simp add: baseName_def cleanName_def toLowerCase_def is_space_def is_name_char_def
        trim_dashes_def)
  have o0: "observe (rerun [''batch''] ''app'' 0 0 (?src, flaky_read_world))
     = \<lparr>github = True, vercel = False, netlify = True, repoName = Some ''app''\<rparr>"
    by (simp add: observe_def flags_of_def run_simps flaky_read_world_def)
  have p1: "fst (processFolder [''batch''] ''app'' 0 flaky_read_world) = Kept"
    by (simp add: b run_simps flaky_read_world_def)
  have r1: "rerun [''batch''] ''app'' 0 (Suc 0) (?src, flaky_read_world)
     = (?src, snd (processFolder [''batch''] ''app'' 0 flaky_read_world))"
    using rerun_step [of "[''batch'']" "''app''" 0 0 flaky_read_world] p1 by simp
  have s1: "stored (snd (processFolder [''batch''] ''app'' 0 flaky_read_world)) ?src
     = \<lparr>github = True, vercel = False, netlify = True, repoName = Some ''app''\<rparr>"
    by (simp add: stored_def b run_simps flaky_read_world_def)
  have r2: "fst (rerun [''batch''] ''app'' 0 2 (?src, flaky_read_world)) = ?src"
    by (simp add: numeral_2_eq_2 b run_simps flaky_read_world_def)
  have s2: "stored (snd (rerun [''batch''] ''app'' 0 2 (?src, flaky_read_world))) ?src = ?lost"
    by (simp add: numeral_2_eq_2 stored_def b run_simps flaky_read_world_def)
  have rel2: "reliable (snd (rerun [''batch''] ''app'' 0 2 (?src, flaky_read_world)))"
    by (simp add: numeral_2_eq_2 reliable_def b run_simps flaky_read_world_def)
  have o2: "observe (rerun [''batch''] ''app'' 0 2 (?src, flaky_read_world)) = ?lost"
    unfolding observe_reliable [OF rel2] r2 by (rule s2)
  have nle: "\<not> flags_le (observe (rerun [''batch''] ''app'' 0 0 (?src, flaky_read_world)))
         (observe (rerun [''batch''] ''app'' 0 2 (?src, flaky_read_world)))"
    unfolding o0 o2 by (simp add: flags_le_def)
  have c0: "observe (rerun [''batch''] ''app'' 0 0 (?src, cut_write_world))
     = \<lparr>github = True, vercel = False, netlify = True, repoName = Some ''app''\<rparr>"
    by (simp add: observe_def flags_of_def run_simps cut_write_world_def)
  have c1: "fst (rerun [''batch''] ''app'' 0 (Suc 0) (?src, cut_write_world))
     = [''batch'', ''upload done'', ''app'']"
    by (simp add: b run_simps cut_write_world_def)
  have crel: "reliable (snd (rerun [''batch''] ''app'' 0 (Suc 0) (?src, cut_write_world)))"
    by (simp add: reliable_def b run_simps cut_write_world_def)
  have cs: "stored (snd (rerun [''batch''] ''app'' 0 (Suc 0) (?src, cut_write_world)))
      [''batch'', ''upload done'', ''app''] = defaultStatus"
    by (simp add: stored_def b run_simps cut_write_world_def)
  have c2: "observe (rerun [''batch''] ''app'' 0 (Suc 0) (?src, cut_write_world)) = defaultStatus"
    unfolding observe_reliable [OF crel] c1 by (rule cs)
  from o0 r1 s1 r2 s2 rel2 o2 nle c0 c1 c2 crel show ?thesis
    by blast
qed

end
